theory Spec2Isabelle
  imports Main "HOL-Library.Word"
begin

section \<open>Door access controller: data model\<close>

text \<open>
  The sketch \<^verbatim>\<open>Project/Project.ino\<close> keeps its allow-list in the EEPROM of the board and
  its working data in global variables. The model is a record of those globals, the EEPROM
  as a store from byte address to byte, the log of everything the sketch does to the outside
  (pin writes, delays, serial output, sensor reads), and the readings the sensors will
  deliver, one list per sensor.
\<close>

type_synonym u8 = "8 word"

text \<open>\<^verbatim>\<open>byte a[4]\<close>: a credential identifier is an array of exactly four bytes.\<close>

datatype card = Card u8 u8 u8 u8

fun byte_at :: "card \<Rightarrow> nat \<Rightarrow> u8" where
  "byte_at (Card b0 b1 b2 b3) k =
     (if k = 0 then b0 else if k = 1 then b1 else if k = 2 then b2 else b3)"

fun set_byte :: "card \<Rightarrow> nat \<Rightarrow> u8 \<Rightarrow> card" where
  "set_byte (Card b0 b1 b2 b3) k v =
     (if k = 0 then Card v b1 b2 b3 else if k = 1 then Card b0 v b2 b3
      else if k = 2 then Card b0 b1 v b3 else Card b0 b1 b2 v)"

text \<open>The pins the sketch names with \<^verbatim>\<open>#define\<close>, and the analog input of the gas sensor.\<close>

datatype pin = wipeB | userOpen | rc | motHigh | motLow | smokePin

abbreviation (input) LOW :: bool where "LOW \<equiv> False"
abbreviation (input) HIGH :: bool where "HIGH \<equiv> True"

datatype event =
    DigitalWrite pin bool
  | DigitalRead pin bool
  | AnalogRead int
  | DistanceRead int
  | GetID "card option"
  | Delay nat
  | Print string
  | Println string
  | PrintHex u8
  | PrintDec int
  | PrintlnDec int

record state =
  eeprom :: "nat \<Rightarrow> u8"
  match :: bool
  programMode :: bool
  successRead :: u8
  storedCard :: card
  readCard :: card
  masterCard :: card
  trace :: "event list"
  reader :: "card option list"
  distance :: "int list"
  gas :: "int list"
  userOpen_in :: "bool list"
  wipeB_in :: "bool list"

text \<open>
  How a call ends. \<open>Returned\<close>: the function returned to its caller. \<open>Halted\<close>: the sketch
  entered one of its \<^verbatim>\<open>while(1);\<close> loops. \<open>Starved\<close>: the code asked a sensor for a reading
  and the list of readings of the model was used up, so the observation ends there with the
  code still waiting. \<open>Hung\<close>: a search loop over the EEPROM never returns.
\<close>

datatype status = Returned | Halted | Starved | Hung

definition andThen :: "status \<times> state \<Rightarrow> (state \<Rightarrow> status \<times> state) \<Rightarrow> status \<times> state" where
  "andThen r f = (case r of (Returned, s) \<Rightarrow> f s | _ \<Rightarrow> r)"

subsection \<open>Primitive effects\<close>

definition emit :: "event \<Rightarrow> state \<Rightarrow> state" where
  "emit e s = s\<lparr>trace := trace s @ [e]\<rparr>"

definition digitalWrite :: "pin \<Rightarrow> bool \<Rightarrow> state \<Rightarrow> state" where
  "digitalWrite p v s = emit (DigitalWrite p v) s"

definition delay :: "nat \<Rightarrow> state \<Rightarrow> state" where
  "delay ms s = emit (Delay ms) s"

definition Serial_println :: "string \<Rightarrow> state \<Rightarrow> state" where
  "Serial_println msg s = emit (Println msg) s"

definition Serial_print :: "string \<Rightarrow> state \<Rightarrow> state" where
  "Serial_print msg s = emit (Print msg) s"

definition EEPROM_write :: "nat \<Rightarrow> u8 \<Rightarrow> state \<Rightarrow> state" where
  "EEPROM_write a v s = s\<lparr>eeprom := (eeprom s)(a := v)\<rparr>"

section \<open>The credential store\<close>

text \<open>
  \<^verbatim>\<open>readID\<close>: \<^verbatim>\<open>start\<close> is a \<^verbatim>\<open>uint8_t\<close>, so \<^verbatim>\<open>(number * 4) + 2\<close> is reduced modulo 256
  when it is stored; \<^verbatim>\<open>start + i\<close> is then computed in \<^verbatim>\<open>int\<close>.
\<close>

definition readID :: "u8 \<Rightarrow> state \<Rightarrow> state" where
  "readID number s =
     (let start = (number * 4) + 2 in
      fold (\<lambda>i s. s\<lparr>storedCard := set_byte (storedCard s) i (eeprom s (unat start + i))\<rparr>)
        [0, 1, 2, 3] s)"

text \<open>The record the code sees in slot \<open>n\<close>: what \<^verbatim>\<open>readID(n)\<close> leaves in \<^verbatim>\<open>storedCard\<close>.\<close>

definition slot_at :: "state \<Rightarrow> u8 \<Rightarrow> card" where
  "slot_at s n = storedCard (readID n s)"

text \<open>
  \<^verbatim>\<open>checkTwo\<close>: the result is the global \<^verbatim>\<open>match\<close>, which is set to true only when the first
  byte of \<^verbatim>\<open>a\<close> is not zero, and otherwise keeps the value the previous call left.
\<close>

definition checkTwo :: "card \<Rightarrow> card \<Rightarrow> state \<Rightarrow> bool \<times> state" where
  "checkTwo a b s =
     (let s1 = (if byte_at a 0 \<noteq> 0 then s\<lparr>match := True\<rparr> else s);
          s2 = fold (\<lambda>k s. if byte_at a k \<noteq> byte_at b k then s\<lparr>match := False\<rparr> else s)
                 [0, 1, 2, 3] s1
      in if match s2 then (True, s2) else (False, s2))"

text \<open>
  \<^verbatim>\<open>findID\<close>: \<^verbatim>\<open>for (uint8_t i = 1; i <= count; i++)\<close>. The counter is eight bits wide, so
  with a count byte of 255 the condition never fails and the loop ends only at a match:
  the result \<open>None\<close> is the loop that never returns.
\<close>

partial_function (option) findID_loop :: "card \<Rightarrow> u8 \<Rightarrow> u8 \<Rightarrow> state \<Rightarrow> (bool \<times> state) option" where
  "findID_loop fnd count i s =
     (if i \<le> count then
        (if fst (checkTwo fnd (storedCard (readID i s)) (readID i s))
         then Some (True, snd (checkTwo fnd (storedCard (readID i s)) (readID i s)))
         else findID_loop fnd count (i + 1)
                (snd (checkTwo fnd (storedCard (readID i s)) (readID i s))))
      else Some (False, s))"

definition findID :: "card \<Rightarrow> state \<Rightarrow> (bool \<times> state) option" where
  "findID fnd s = findID_loop fnd (eeprom s 0) 1 s"

text \<open>
  \<^verbatim>\<open>findIDSLOT\<close>: the same loop, returning the slot. When no slot matches, control reaches
  the end of a non-void function without a \<^verbatim>\<open>return\<close>: the value is undefined, and the
  model gives no result (\<open>None\<close>) there, as it does for the loop that never ends.
\<close>

partial_function (option) findIDSLOT_loop :: "card \<Rightarrow> u8 \<Rightarrow> u8 \<Rightarrow> state \<Rightarrow> (u8 \<times> state) option" where
  "findIDSLOT_loop fnd count i s =
     (if i \<le> count then
        (if fst (checkTwo fnd (storedCard (readID i s)) (readID i s))
         then Some (i, snd (checkTwo fnd (storedCard (readID i s)) (readID i s)))
         else findIDSLOT_loop fnd count (i + 1)
                (snd (checkTwo fnd (storedCard (readID i s)) (readID i s))))
      else None)"

definition findIDSLOT :: "card \<Rightarrow> state \<Rightarrow> (u8 \<times> state) option" where
  "findIDSLOT fnd s = findIDSLOT_loop fnd (eeprom s 0) 1 s"

text \<open>
  \<^verbatim>\<open>writeID\<close>: \<^verbatim>\<open>num\<close> and \<^verbatim>\<open>start\<close> are \<^verbatim>\<open>uint8_t\<close>; there is no check of the count against
  any capacity.
\<close>

definition writeID :: "card \<Rightarrow> state \<Rightarrow> state option" where
  "writeID a s =
     (case findID a s of
        None \<Rightarrow> None
      | Some (found, s1) \<Rightarrow>
          if \<not> found then
            (let num = eeprom s1 0;
                 start = (num * 4) + 6;
                 num' = num + 1;
                 s2 = EEPROM_write 0 num' s1;
                 s3 = fold (\<lambda>j s. EEPROM_write (unat start + j) (byte_at a j) s) [0, 1, 2, 3] s2
             in Some (Serial_println ''Succesfully added ID record to EEPROM'' s3))
          else
            Some (Serial_println ''Failed! There is something wrong with ID or bad EEPROM'' s1))"

text \<open>
  \<^verbatim>\<open>deleteID\<close>: \<^verbatim>\<open>slot\<close>, \<^verbatim>\<open>start\<close>, \<^verbatim>\<open>looping\<close> and \<^verbatim>\<open>j\<close> are \<^verbatim>\<open>uint8_t\<close>; the addresses
  \<^verbatim>\<open>start + j\<close>, \<^verbatim>\<open>start + 4 + j\<close> and \<^verbatim>\<open>start + j + k\<close> are computed in \<^verbatim>\<open>int\<close>.
\<close>

definition deleteID :: "card \<Rightarrow> state \<Rightarrow> state option" where
  "deleteID a s =
     (case findID a s of
        None \<Rightarrow> None
      | Some (found, s1) \<Rightarrow>
          if \<not> found then
            Some (Serial_println ''Failed! There is something wrong with ID or bad EEPROM'' s1)
          else
            (let num = eeprom s1 0 in
             case findIDSLOT a s1 of
               None \<Rightarrow> None
             | Some (slot, s2) \<Rightarrow>
                 (let start = (slot * 4) + 2;
                      looping = (num - slot) * 4;
                      num' = num - 1;
                      s3 = EEPROM_write 0 num' s2;
                      s4 = fold (\<lambda>j s. EEPROM_write (unat start + j)
                                          (eeprom s (unat start + 4 + j)) s)
                             [0..<unat looping] s3;
                      j = unat looping;
                      s5 = fold (\<lambda>k s. EEPROM_write (unat start + j + k) 0 s) [0, 1, 2, 3] s4
                  in Some (Serial_println ''Succesfully removed ID record from EEPROM'' s5))))"

definition isMaster :: "card \<Rightarrow> state \<Rightarrow> bool \<times> state" where
  "isMaster test s =
     (if fst (checkTwo test (masterCard s) s)
      then (True, snd (checkTwo test (masterCard s) s))
      else (False, snd (checkTwo test (masterCard s) s)))"

section \<open>Sensors and inputs\<close>

text \<open>
  Each read takes the next reading of its sensor and logs it; \<open>None\<close> means that the
  readings of the model are used up.
\<close>

definition ultrasonic_distanceRead :: "state \<Rightarrow> (int \<times> state) option" where
  "ultrasonic_distanceRead s =
     (case distance s of
        [] \<Rightarrow> None
      | v # vs \<Rightarrow> Some (v, emit (DistanceRead v) (s\<lparr>distance := vs\<rparr>)))"

definition analogRead_smokePin :: "state \<Rightarrow> (int \<times> state) option" where
  "analogRead_smokePin s =
     (case gas s of
        [] \<Rightarrow> None
      | v # vs \<Rightarrow> Some (v, emit (AnalogRead v) (s\<lparr>gas := vs\<rparr>)))"

definition digitalRead_userOpen :: "state \<Rightarrow> (bool \<times> state) option" where
  "digitalRead_userOpen s =
     (case userOpen_in s of
        [] \<Rightarrow> None
      | v # vs \<Rightarrow> Some (v, emit (DigitalRead userOpen v) (s\<lparr>userOpen_in := vs\<rparr>)))"

definition digitalRead_wipeB :: "state \<Rightarrow> (bool \<times> state) option" where
  "digitalRead_wipeB s =
     (case wipeB_in s of
        [] \<Rightarrow> None
      | v # vs \<Rightarrow> Some (v, emit (DigitalRead wipeB v) (s\<lparr>wipeB_in := vs\<rparr>)))"

text \<open>
  \<^verbatim>\<open>getID\<close>: returns 0 when the reader has no new card (or cannot read its serial), and
  otherwise copies the first four bytes of the UID into \<^verbatim>\<open>readCard\<close> and returns 1.
\<close>

definition getID :: "state \<Rightarrow> (u8 \<times> state) option" where
  "getID s =
     (case reader s of
        [] \<Rightarrow> None
      | None # rs \<Rightarrow> Some (0, emit (GetID None) (s\<lparr>reader := rs\<rparr>))
      | Some uid # rs \<Rightarrow>
          (let s1 = emit (GetID (Some uid)) (s\<lparr>reader := rs\<rparr>);
               s2 = Serial_println ''Scanned PICC's UID:'' s1;
               s3 = fold (\<lambda>i s. emit (PrintHex (byte_at uid i))
                                   (s\<lparr>readCard := set_byte (readCard s) i (byte_at uid i)\<rparr>))
                      [0, 1, 2, 3] s2;
               s4 = Serial_println [] s3
           in Some (1, s4)))"

section \<open>The door actuator and the safety monitor\<close>

definition funopenDoor :: "state \<Rightarrow> state" where
  "funopenDoor s =
     (let s1 = delay 2000 s;
          s2 = digitalWrite motHigh HIGH s1;
          s3 = delay 10000 s2;
          s4 = digitalWrite motHigh LOW s3
      in delay 2000 s4)"

text \<open>
  \<^verbatim>\<open>closeDoor\<close>: \<^verbatim>\<open>while(!safe)\<close> with \<^verbatim>\<open>safe\<close> a local that starts false, so the body runs
  at least once and the loop ends after the first reading strictly between 14 and 20.
\<close>

function closeDoor_loop :: "state \<Rightarrow> status \<times> state" where
  "closeDoor_loop s =
     (case ultrasonic_distanceRead s of
        None \<Rightarrow> (Starved, s)
      | Some (v, s1) \<Rightarrow>
          (let s2 = emit (PrintlnDec v) s1;
               safe = (v > 14 \<and> v < 20);
               s3 = delay 500 s2
           in if \<not> safe then closeDoor_loop s3 else (Returned, s3)))"
  by pat_completeness auto
termination
  by (relation "measure (\<lambda>s. length (distance s))")
     (auto simp: ultrasonic_distanceRead_def emit_def delay_def split: list.splits)

declare closeDoor_loop.simps [simp del]

definition closeDoor :: "state \<Rightarrow> status \<times> state" where
  "closeDoor s =
     andThen (closeDoor_loop (delay 2000 s))
       (\<lambda>s1. (Returned, digitalWrite motLow LOW (delay 10200 (digitalWrite motLow HIGH s1))))"

definition checkClose :: "state \<Rightarrow> status \<times> state" where
  "checkClose s =
     (case ultrasonic_distanceRead s of
        None \<Rightarrow> (Starved, s)
      | Some (v, s1) \<Rightarrow> if v > 14 \<and> v < 20 then closeDoor s1 else (Returned, s1))"

text \<open>\<^verbatim>\<open>checkSmoke\<close>: \<^verbatim>\<open>int i = 4; while (i != 0) { ...; i = i - 1; }\<close>.\<close>

fun checkSmoke_loop :: "nat \<Rightarrow> state \<Rightarrow> status \<times> state" where
  "checkSmoke_loop 0 s = (Returned, s)"
| "checkSmoke_loop (Suc i) s =
     (case analogRead_smokePin s of
        None \<Rightarrow> (Starved, s)
      | Some (j, s1) \<Rightarrow>
          if j > 100 then
            (Halted, funopenDoor
                       (Serial_println ''Alarm triggered!! Press reset to reset door.'' s1))
          else checkSmoke_loop i s1)"

definition checkSmoke :: "state \<Rightarrow> status \<times> state" where
  "checkSmoke s = checkSmoke_loop 4 s"

section \<open>The access controller\<close>

text \<open>
  The body of the \<^verbatim>\<open>do { ... } while (!successRead);\<close> loop of \<^verbatim>\<open>loop()\<close>: one poll of the
  card reader, the smoke check, the manual-open button and the wipe button.
\<close>

definition poll_body :: "state \<Rightarrow> status \<times> state" where
  "poll_body s =
     (case getID s of
        None \<Rightarrow> (Starved, s)
      | Some (r, s0) \<Rightarrow>
          andThen (checkSmoke (s0\<lparr>successRead := r\<rparr>))
            (\<lambda>s1. case digitalRead_userOpen s1 of
                None \<Rightarrow> (Starved, s1)
              | Some (u, s2) \<Rightarrow>
                  andThen
                    (if u = LOW then
                       andThen
                         (Returned,
                          delay 10000
                            (funopenDoor (Serial_println ''Button press open triggered.'' s2)))
                         closeDoor
                     else (Returned, s2))
                    (\<lambda>s3. case digitalRead_wipeB s3 of
                        None \<Rightarrow> (Starved, s3)
                      | Some (w, s4) \<Rightarrow>
                          if w = LOW then
                            (let s5 = delay 10000
                                        (Serial_println ''Master Card will be Erased! in 10 seconds''
                                          (Serial_println ''Wipe Button Pressed'' s4))
                             in case digitalRead_wipeB s5 of
                                  None \<Rightarrow> (Starved, s5)
                                | Some (w2, s6) \<Rightarrow>
                                    if w2 = LOW then
                                      (Halted,
                                       Serial_println ''Restart device to re-program Master Card''
                                         (EEPROM_write 1 0 s6))
                                    else (Returned, s6))
                          else (Returned, s4))))"

function poll :: "state \<Rightarrow> status \<times> state" where
  "poll s =
     (case poll_body s of
        (Returned, s1) \<Rightarrow> if successRead s1 = 0 then poll s1 else (Returned, s1)
      | r \<Rightarrow> r)"
  by pat_completeness auto
termination
proof (relation "measure (\<lambda>s. length (reader s))")
  show "wf (measure (\<lambda>s. length (reader s)))"
    by simp
next
  fix s :: state and st :: status and s1 :: state
  assume body: "(st, s1) = poll_body s" and ret: "st = Returned"
    and again: "successRead s1 = 0"
  have cl: "reader (snd (closeDoor_loop t)) = reader t" for t
  proof (induction t rule: closeDoor_loop.induct)
    case (1 t)
    show ?case
    proof (cases "ultrasonic_distanceRead t")
      case None
      then show ?thesis by (subst closeDoor_loop.simps) simp
    next
      case (Some p)
      obtain v t1 where p: "p = (v, t1)" by (cases p)
      have t1: "reader t1 = reader t"
        using Some p by (auto simp: ultrasonic_distanceRead_def emit_def split: list.splits)
      let ?t3 = "delay 500 (emit (PrintlnDec v) t1)"
      have t3: "reader ?t3 = reader t"
        using t1 by (simp add: emit_def delay_def)
      show ?thesis
      proof (cases "v > 14 \<and> v < 20")
        case True
        then have "closeDoor_loop t = (Returned, ?t3)"
          using Some p by (subst closeDoor_loop.simps) simp
        then show ?thesis using t3 by simp
      next
        case False
        then have "closeDoor_loop t = closeDoor_loop ?t3"
          using Some p by (subst closeDoor_loop.simps) simp
        moreover have "reader (snd (closeDoor_loop ?t3)) = reader ?t3"
          using "1.IH" [OF Some p [symmetric] refl refl refl] False by simp
        ultimately show ?thesis using t3 by simp
      qed
    qed
  qed
  have cd: "reader (snd (closeDoor t)) = reader t" for t
    using cl [of "delay 2000 t"]
    by (cases "closeDoor_loop (delay 2000 t)")
       (auto simp: closeDoor_def andThen_def digitalWrite_def delay_def emit_def
             split: status.splits)
  have sm: "reader (snd (checkSmoke_loop n t)) = reader t" for n t
    by (induction n arbitrary: t)
       (auto simp: analogRead_smokePin_def funopenDoor_def Serial_println_def
                   digitalWrite_def delay_def emit_def
             split: option.splits list.splits)
  have gi: "getID s = Some (r, t) \<Longrightarrow> length (reader t) < length (reader s)" for r t
    by (auto simp: getID_def Serial_println_def emit_def split: list.splits option.splits)
  from body ret have pb: "poll_body s = (Returned, s1)" by simp
  have "length (reader s1) < length (reader s)"
  proof (cases "getID s")
    case None
    then show ?thesis using pb by (simp add: poll_body_def)
  next
    case (Some p)
    obtain r s0 where p: "p = (r, s0)" by (cases p)
    have g: "length (reader s0) < length (reader s)" using gi Some p by simp
    obtain st1 t1 where cs: "checkSmoke (s0\<lparr>successRead := r\<rparr>) = (st1, t1)"
      by (cases "checkSmoke (s0\<lparr>successRead := r\<rparr>)")
    have r1: "reader t1 = reader s0"
      using sm [of 4 "s0\<lparr>successRead := r\<rparr>"] cs by (simp add: checkSmoke_def)
    have cd': "reader t' = reader t" if "closeDoor t = (st', t')" for t st' t'
      using cd [of t] that by simp
    have "reader s1 = reader t1"
      using pb Some p cs
      by (auto simp: poll_body_def andThen_def digitalRead_userOpen_def digitalRead_wipeB_def
                     funopenDoor_def Serial_println_def EEPROM_write_def
                     digitalWrite_def delay_def emit_def Let_def
               split: status.splits option.splits list.splits if_splits prod.splits
               dest: cd')
    then show ?thesis using g r1 by simp
  qed
  then show "(s1, s) \<in> measure (\<lambda>s. length (reader s))"
    by simp
qed

declare poll.simps [simp del]

text \<open>
  The rest of \<^verbatim>\<open>loop()\<close>, after a card has been read: the two modes. A search that does not
  return leaves the controller \<open>Hung\<close> in the state in which the search was called.
\<close>

definition dispatch :: "state \<Rightarrow> status \<times> state" where
  "dispatch s =
     (if programMode s then
        (case isMaster (readCard s) s of
           (True, s1) \<Rightarrow>
             (Returned,
              (Serial_println ''-----------------------------''
                (Serial_println ''Exiting Program Mode''
                  (Serial_println ''Master Card Scanned'' s1)))\<lparr>programMode := False\<rparr>)
         | (False, s1) \<Rightarrow>
             (case findID (readCard s1) s1 of
                None \<Rightarrow> (Hung, s1)
              | Some (True, s2) \<Rightarrow>
                  (let s3 = Serial_println ''I know this PICC, removing...'' s2 in
                   case deleteID (readCard s3) s3 of
                     None \<Rightarrow> (Hung, s3)
                   | Some s4 \<Rightarrow>
                       (Returned,
                        Serial_println ''Scan a PICC to ADD or REMOVE to EEPROM''
                          (Serial_println ''-----------------------------'' s4)))
              | Some (False, s2) \<Rightarrow>
                  (let s3 = Serial_println ''I do not know this PICC, adding...'' s2 in
                   case writeID (readCard s3) s3 of
                     None \<Rightarrow> (Hung, s3)
                   | Some s4 \<Rightarrow>
                       (Returned,
                        Serial_println ''Scan a PICC to ADD or REMOVE to EEPROM''
                          (Serial_println ''-----------------------------'' s4)))))
      else
        (case isMaster (readCard s) s of
           (True, s1) \<Rightarrow>
             (let s2 = Serial_println ''Hello Master - Entered Program Mode''
                         (s1\<lparr>programMode := True\<rparr>);
                  count = eeprom s2 0;
                  s3 = Serial_print ''I have '' s2;
                  s4 = emit (PrintDec (uint count)) s3;
                  s5 = Serial_print '' record(s) on EEPROM'' s4;
                  s6 = Serial_println [] s5;
                  s7 = Serial_println ''Scan a PICC to ADD or REMOVE to EEPROM'' s6;
                  s8 = Serial_println ''Scan Master Card again to Exit Program Mode'' s7
              in (Returned, Serial_println ''-----------------------------'' s8))
         | (False, s1) \<Rightarrow>
             (case findID (readCard s1) s1 of
                None \<Rightarrow> (Hung, s1)
              | Some (True, s2) \<Rightarrow>
                  (let s3 = Serial_println ''Welcome, You shall pass'' s2;
                       s4 = digitalWrite rc HIGH s3;
                       s5 = funopenDoor s4;
                       s6 = digitalWrite rc LOW s5;
                       s7 = delay 10000 s6
                   in closeDoor s7)
              | Some (False, s2) \<Rightarrow>
                  (Returned, Serial_println ''You shall not pass'' s2))))"

definition loop :: "state \<Rightarrow> status \<times> state" where
  "loop s =
     (let s1 = digitalWrite motHigh LOW s;
          s2 = digitalWrite motLow LOW s1;
          s3 = digitalWrite rc LOW s2
      in andThen (checkClose s3) (\<lambda>s4. andThen (poll s4) dispatch))"

text \<open>The Arduino runtime calls \<^verbatim>\<open>loop()\<close> again and again; \<open>run n\<close> is the first \<open>n\<close> calls.\<close>

fun run :: "nat \<Rightarrow> state \<Rightarrow> status \<times> state" where
  "run 0 s = (Returned, s)"
| "run (Suc n) s = andThen (loop s) (run n)"

section \<open>The motor outputs along the log\<close>

text \<open>
  The levels of the two motor outputs, \<^verbatim>\<open>motHigh\<close> (open) and \<^verbatim>\<open>motLow\<close> (close), after an
  event of the log; both are low after reset.
\<close>

fun drive :: "bool \<times> bool \<Rightarrow> event \<Rightarrow> bool \<times> bool" where
  "drive (h, l) (DigitalWrite p v) =
     (if p = motHigh then (v, l) else if p = motLow then (h, v) else (h, l))"
| "drive (h, l) e = (h, l)"

text \<open>
  Starting from the levels \<open>hl\<close>, the two outputs are never high together: neither before
  the first event nor after any event of the log.
\<close>

fun interlocked :: "bool \<times> bool \<Rightarrow> event list \<Rightarrow> bool" where
  "interlocked hl [] = (hl \<noteq> (HIGH, HIGH))"
| "interlocked hl (e # es) = (hl \<noteq> (HIGH, HIGH) \<and> interlocked (drive hl e) es)"

text \<open>A piece of log that starts and ends with both outputs low and keeps the interlock.\<close>

definition idle :: "event list \<Rightarrow> bool" where
  "idle ys \<longleftrightarrow> interlocked (LOW, LOW) ys \<and> foldl drive (LOW, LOW) ys = (LOW, LOW)"

text \<open>The log of \<open>t\<close> is the log of \<open>s\<close> followed by such a piece.\<close>

definition extends :: "state \<Rightarrow> state \<Rightarrow> bool" where
  "extends s t \<longleftrightarrow> (\<exists>ys. trace t = trace s @ ys \<and> idle ys)"

text \<open>The events that do not touch the motor outputs.\<close>

fun neutral :: "event \<Rightarrow> bool" where
  "neutral (DigitalWrite p v) = (p \<noteq> motHigh \<and> p \<noteq> motLow)"
| "neutral e = True"

section \<open>Concrete states\<close>

text \<open>
  The globals as the sketch initialises them, a blank EEPROM and no sensor readings.
\<close>

definition power_on :: state where
  "power_on = \<lparr>eeprom = (\<lambda>_. 0), match = False, programMode = False, successRead = 0,
     storedCard = Card 0 0 0 0, readCard = Card 0 0 0 0, masterCard = Card 0 0 0 0,
     trace = [], reader = [], distance = [], gas = [], userOpen_in = [], wipeB_in = []\<rparr>"

text \<open>
  A board whose master card starts with a zero byte and whose store holds the card
  \<open>01 02 03 04\<close>; that card is scanned first, then the master card.
\<close>

definition zero_master :: state where
  "zero_master = power_on
     \<lparr>eeprom := (\<lambda>_. 0)(0 := 1, 1 := 143, 2 := 0, 3 := 9, 4 := 9, 5 := 9,
                            6 := 1, 7 := 2, 8 := 3, 9 := 4),
      masterCard := Card 0 9 9 9,
      reader := [Some (Card 1 2 3 4), Some (Card 0 9 9 9)],
      distance := [0, 15, 0],
      gas := [0, 0, 0, 0, 0, 0, 0, 0],
      userOpen_in := [HIGH, HIGH],
      wipeB_in := [HIGH, HIGH]\<rparr>"

text \<open>
  A provisioned board (marker 143, master card \<open>02 03 04 05\<close>) whose count byte is \<open>c\<close>
  and whose byte at every other address is the address modulo 256, so that the records in
  the slots are pairwise different.
\<close>

definition store_with_count :: "u8 \<Rightarrow> state" where
  "store_with_count c = power_on
     \<lparr>eeprom := (\<lambda>a. if a = 0 then c else if a = 1 then 143 else of_nat a),
      masterCard := Card 2 3 4 5\<rparr>"

text \<open>The board with the zero-first master card, freshly started, and that card scanned.\<close>

definition zero_master_scan :: state where
  "zero_master_scan = zero_master
     \<lparr>reader := [Some (Card 0 9 9 9)], distance := [0], gas := [0, 0, 0, 0],
      userOpen_in := [HIGH], wipeB_in := [HIGH]\<rparr>"

text \<open>
  A provisioned board with an empty store in normal mode; its master card \<open>02 03 04 05\<close>
  is scanned, no button is pressed and the sensors read zero.
\<close>

definition master_scan :: state where
  "master_scan = (store_with_count 0)
     \<lparr>reader := [Some (Card 2 3 4 5)], distance := [0], gas := [0, 0, 0, 0],
      userOpen_in := [HIGH], wipeB_in := [HIGH]\<rparr>"

text \<open>
  A board in program mode with no card at the reader, whose gas sensor reads 50, then 120.
\<close>

definition smoke_scan :: state where
  "smoke_scan = power_on
     \<lparr>programMode := True, reader := [None], distance := [0], gas := [50, 120, 7]\<rparr>"

text \<open>
  The same board with the door in the closing band at the start of the cycle: the distance
  sensor reads 15, then 30, then 16.
\<close>

definition close_scan :: state where
  "close_scan = master_scan\<lparr>distance := [15, 30, 16]\<rparr>"

text \<open>The log of one iteration of the clearance wait of \<^verbatim>\<open>closeDoor\<close>.\<close>

definition sample :: "int \<Rightarrow> event list" where
  "sample v = [DistanceRead v, PrintlnDec v, Delay 500]"

section \<open>Properties of the credential store\<close>

subsection \<open>Reading and comparing\<close>

lemma readID_eq:
  "readID n s = s\<lparr>storedCard :=
      Card (eeprom s (unat (n * 4 + 2))) (eeprom s (unat (n * 4 + 2) + 1))
           (eeprom s (unat (n * 4 + 2) + 2)) (eeprom s (unat (n * 4 + 2) + 3))\<rparr>"
  by (cases "storedCard s") (simp add: readID_def Let_def)

lemma checkTwo_eq:
  "checkTwo a b s =
     ((byte_at a 0 \<noteq> 0 \<or> match s) \<and> a = b,
      s\<lparr>match := (byte_at a 0 \<noteq> 0 \<or> match s) \<and> a = b\<rparr>)"
  by (cases a; cases b) (auto simp: checkTwo_def Let_def)

lemma readID_slot: "readID n s = s\<lparr>storedCard := slot_at s n\<rparr>"
  by (simp add: slot_at_def readID_eq)

lemma slot_eeprom: "eeprom t = eeprom s \<Longrightarrow> slot_at t n = slot_at s n"
  by (simp add: slot_at_def readID_eq)

lemma unat_succ: fixes i :: u8 shows "unat i < 255 \<Longrightarrow> unat (i + 1) = Suc (unat i)"
  by (simp add: unat_word_ariths)

lemma word_succ: fixes i :: u8 shows "i < m \<Longrightarrow> unat (i + 1) = Suc (unat i)"
proof -
  assume "i < m"
  then have "unat i < unat m" by (simp add: word_less_nat_alt)
  moreover have "unat m < 256" using unsigned_less [of m, where ?'a = nat] by simp
  ultimately show ?thesis by (simp add: unat_succ)
qed

text \<open>One iteration of the search loops, when the slot does not match.\<close>

lemma findID_loop_step:
  assumes "i \<le> count" "\<not> ((byte_at a 0 \<noteq> 0 \<or> match s) \<and> a = slot_at s i)"
  shows "findID_loop a count i s =
           findID_loop a count (i + 1) (s\<lparr>storedCard := slot_at s i, match := False\<rparr>)"
  using assms by (subst findID_loop.simps) (auto simp: readID_slot checkTwo_eq)

lemma findID_loop_hit:
  assumes "i \<le> count" "(byte_at a 0 \<noteq> 0 \<or> match s) \<and> a = slot_at s i"
  shows "findID_loop a count i s = Some (True, s\<lparr>storedCard := a, match := True\<rparr>)"
  using assms by (subst findID_loop.simps) (auto simp: readID_slot checkTwo_eq)

lemma findID_loop_end:
  assumes "\<not> i \<le> count"
  shows "findID_loop a count i s = Some (False, s)"
  using assms by (subst findID_loop.simps) simp

lemma findIDSLOT_loop_step:
  assumes "i \<le> count" "\<not> ((byte_at a 0 \<noteq> 0 \<or> match s) \<and> a = slot_at s i)"
  shows "findIDSLOT_loop a count i s =
           findIDSLOT_loop a count (i + 1) (s\<lparr>storedCard := slot_at s i, match := False\<rparr>)"
  using assms by (subst findIDSLOT_loop.simps) (auto simp: readID_slot checkTwo_eq)

lemma findIDSLOT_loop_hit:
  assumes "i \<le> count" "(byte_at a 0 \<noteq> 0 \<or> match s) \<and> a = slot_at s i"
  shows "findIDSLOT_loop a count i s = Some (i, s\<lparr>storedCard := a, match := True\<rparr>)"
  using assms by (subst findIDSLOT_loop.simps) (auto simp: readID_slot checkTwo_eq)

text \<open>The first matching slot is found, by both loops.\<close>

lemma find_first:
  assumes nz: "byte_at a 0 \<noteq> 0"
  shows "i \<le> m \<Longrightarrow> m \<le> count \<Longrightarrow> slot_at s m = a \<Longrightarrow> (\<forall>n. i \<le> n \<and> n < m \<longrightarrow> slot_at s n \<noteq> a) \<Longrightarrow>
         findID_loop a count i s = Some (True, s\<lparr>storedCard := a, match := True\<rparr>) \<and>
         findIDSLOT_loop a count i s = Some (m, s\<lparr>storedCard := a, match := True\<rparr>)"
proof (induction "unat m - unat i" arbitrary: i s)
  case 0
  then have "i = m" by (simp add: word_le_nat_alt word_unat_eq_iff)
  then show ?case
    using 0 nz by (simp add: findID_loop_hit findIDSLOT_loop_hit)
next
  case (Suc k)
  then have lt: "i < m" by (simp add: word_less_nat_alt)
  then have ic: "i \<le> count" using Suc.prems by simp
  have ne: "slot_at s i \<noteq> a" using Suc.prems lt by simp
  let ?s = "s\<lparr>storedCard := slot_at s i, match := False\<rparr>"
  have u: "unat (i + 1) = Suc (unat i)" using lt by (rule word_succ)
  have sl: "slot_at ?s n = slot_at s n" for n by (rule slot_eeprom) simp
  have le: "i + 1 \<le> m" using lt u by (simp add: word_le_nat_alt word_less_nat_alt)
  have k: "k = unat m - unat (i + 1)" using Suc.hyps(2) u by simp
  have nb: "\<forall>n. i + 1 \<le> n \<and> n < m \<longrightarrow> slot_at ?s n \<noteq> a"
  proof (intro allI impI)
    fix n assume "i + 1 \<le> n \<and> n < m"
    then have "i \<le> n \<and> n < m" using u by (simp add: word_le_nat_alt)
    then show "slot_at ?s n \<noteq> a" using Suc.prems sl by simp
  qed
  have "findID_loop a count (i + 1) ?s = Some (True, ?s\<lparr>storedCard := a, match := True\<rparr>) \<and>
        findIDSLOT_loop a count (i + 1) ?s = Some (m, ?s\<lparr>storedCard := a, match := True\<rparr>)"
    using Suc.hyps(1) [OF k le Suc.prems(2) _ nb] Suc.prems(3) sl by simp
  then show ?case
    using ic ne by (simp add: findID_loop_step findIDSLOT_loop_step)
qed

text \<open>With no matching slot and a count below 255 the search returns false.\<close>

lemma find_none:
  assumes c: "unat count < 255"
  shows "(\<forall>n. i \<le> n \<and> n \<le> count \<longrightarrow> \<not> ((byte_at a 0 \<noteq> 0 \<or> (match s \<and> n = i)) \<and> a = slot_at s n)) \<Longrightarrow>
         findID_loop a count i s =
           Some (False, if i \<le> count then s\<lparr>storedCard := slot_at s count, match := False\<rparr> else s)"
proof (induction "Suc (unat count) - unat i" arbitrary: i s)
  case 0
  then have "\<not> i \<le> count" by (simp add: word_le_nat_alt)
  then show ?case by (simp add: findID_loop_end)
next
  case (Suc k)
  then have ic: "i \<le> count" by (simp add: word_le_nat_alt)
  have ne: "\<not> ((byte_at a 0 \<noteq> 0 \<or> match s) \<and> a = slot_at s i)"
    using Suc.prems ic by auto
  let ?s = "s\<lparr>storedCard := slot_at s i, match := False\<rparr>"
  have u: "unat (i + 1) = Suc (unat i)"
    using ic c by (intro unat_succ) (simp add: word_le_nat_alt)
  have sl: "slot_at ?s n = slot_at s n" for n by (rule slot_eeprom) simp
  have k: "k = Suc (unat count) - unat (i + 1)" using Suc.hyps(2) u by simp
  have nb: "\<forall>n. i + 1 \<le> n \<and> n \<le> count \<longrightarrow>
              \<not> ((byte_at a 0 \<noteq> 0 \<or> (match ?s \<and> n = i + 1)) \<and> a = slot_at ?s n)"
  proof (intro allI impI)
    fix n assume n: "i + 1 \<le> n \<and> n \<le> count"
    then have "i \<le> n \<and> n \<le> count \<and> n \<noteq> i" using u by (auto simp: word_le_nat_alt)
    then show "\<not> ((byte_at a 0 \<noteq> 0 \<or> (match ?s \<and> n = i + 1)) \<and> a = slot_at ?s n)"
      using Suc.prems sl by auto
  qed
  have "findID_loop a count (i + 1) ?s =
          Some (False, if i + 1 \<le> count then ?s\<lparr>storedCard := slot_at ?s count, match := False\<rparr> else ?s)"
    using Suc.hyps(1) [OF k nb] .
  moreover have "\<not> i + 1 \<le> count \<Longrightarrow> i = count"
    using ic u by (simp add: word_le_nat_alt word_unat_eq_iff)
  ultimately show ?case
    using ic ne sl by (auto simp: findID_loop_step)
qed


subsection \<open>Evaluation rules\<close>

lemmas prims = emit_def digitalWrite_def delay_def Serial_println_def Serial_print_def
  EEPROM_write_def ultrasonic_distanceRead_def analogRead_smokePin_def digitalRead_userOpen_def
  digitalRead_wipeB_def getID_def funopenDoor_def andThen_def

lemma poll_unfold:
  "poll s =
     (if fst (poll_body s) = Returned
      then (if successRead (snd (poll_body s)) = 0 then poll (snd (poll_body s)) else poll_body s)
      else poll_body s)"
  by (subst poll.simps) (auto split: prod.splits status.splits)

lemma closeDoor_loop_unfold:
  "closeDoor_loop s =
     (case distance s of
        [] \<Rightarrow> (Starved, s)
      | v # vs \<Rightarrow>
          if v > 14 \<and> v < 20
          then (Returned, s\<lparr>distance := vs, trace := trace s @ [DistanceRead v, PrintlnDec v, Delay 500]\<rparr>)
          else closeDoor_loop (s\<lparr>distance := vs, trace := trace s @ [DistanceRead v, PrintlnDec v, Delay 500]\<rparr>))"
  by (subst closeDoor_loop.simps) (simp add: prims split: list.splits)

lemma checkSmoke_unfold: "checkSmoke s = checkSmoke_loop (Suc (Suc (Suc (Suc 0)))) s"
  by (simp add: checkSmoke_def eval_nat_numeral)

lemma run_2: "run 2 s = andThen (loop s) (\<lambda>s. andThen (loop s) (\<lambda>s. (Returned, s)))"
  by (simp add: numeral_2_eq_2 andThen_def split: prod.splits status.splits)

lemmas evals = loop_def prims checkClose_def poll_unfold poll_body_def checkSmoke_unfold
  closeDoor_def closeDoor_loop_unfold dispatch_def isMaster_def checkTwo_eq findID_def
  findID_loop_step findID_loop_hit findID_loop_end slot_at_def readID_eq Let_def
  word_le_nat_alt

subsection \<open>The comparator and a first byte of zero\<close>

text \<open>With \<^verbatim>\<open>match\<close> false on entry, a candidate whose first byte is zero matches nothing.\<close>

lemma checkTwo_zero_first:
  "byte_at a 0 = 0 \<Longrightarrow> \<not> match s \<Longrightarrow> checkTwo a b s = (False, s)"
  by (simp add: checkTwo_eq)

text \<open>
  C1. The claim: a candidate whose first byte is zero never matches, whatever was compared
  before, so its lookup fails and it is never taken for the master card. The comparator
  resets \<^verbatim>\<open>match\<close> only for a non-zero first byte, so after a successful comparison the
  flag is still true: the comparison of \<open>00 01 02 03\<close> with itself then succeeds, a lookup
  of that identifier in slot 1 succeeds, and a master card \<open>00 09 09 09\<close> scanned right
  after an access grant puts the controller into program mode.
\<close>

theorem checkTwo_stale_match:
  "fst (checkTwo (Card 0 1 2 3) (Card 0 1 2 3)
         (snd (checkTwo (Card 1 2 3 4) (Card 1 2 3 4) power_on))) = True \<and>
   map_option fst
     (findID (Card 0 1 2 3)
        (power_on\<lparr>match := True,
                   eeprom := (\<lambda>_. 0)(0 := 1, 6 := 0, 7 := 1, 8 := 2, 9 := 3)\<rparr>)) = Some True \<and>
   fst (run 2 zero_master) = Returned \<and> programMode (snd (run 2 zero_master)) = True"
  by (simp add: run_2 zero_master_def power_on_def evals)

subsection \<open>What a search leaves unchanged, and what a failed search has seen\<close>

lemma findID_loop_frame:
  assumes "findID_loop a count i s = Some y"
  shows "\<exists>c m. snd y = s\<lparr>storedCard := c, match := m\<rparr>"
proof (rule findID_loop.raw_induct
    [where P = "\<lambda>a count i s y. \<exists>c m. snd y = s\<lparr>storedCard := c, match := m\<rparr>", OF _ assms])
  fix f a count i s y
  assume ih: "\<And>a count i s y. f a count i s = Some y \<Longrightarrow>
                \<exists>c m. snd y = s\<lparr>storedCard := c, match := m\<rparr>"
    and eq: "(if i \<le> count then
        (if fst (checkTwo a (storedCard (readID i s)) (readID i s))
         then Some (True, snd (checkTwo a (storedCard (readID i s)) (readID i s)))
         else f a count (i + 1)
                (snd (checkTwo a (storedCard (readID i s)) (readID i s))))
      else Some (False, s)) = Some y"
  show "\<exists>c m. snd y = s\<lparr>storedCard := c, match := m\<rparr>"
  proof (cases "i \<le> count")
    case False
    then have "snd y = s" using eq by auto
    then have "snd y = s\<lparr>storedCard := storedCard s, match := match s\<rparr>" by simp
    then show ?thesis by blast
  next
    case True
    let ?hit = "(byte_at a 0 \<noteq> 0 \<or> match s) \<and> a = slot_at s i"
    show ?thesis
    proof (cases ?hit)
      case True
      then have "snd y = s\<lparr>storedCard := slot_at s i, match := True\<rparr>"
        using eq \<open>i \<le> count\<close> by (auto simp: readID_slot checkTwo_eq)
      then show ?thesis by blast
    next
      case False
      then have "f a count (i + 1) (s\<lparr>storedCard := slot_at s i, match := False\<rparr>) = Some y"
        using eq \<open>i \<le> count\<close> by (auto simp: readID_slot checkTwo_eq)
      from ih [OF this] obtain c m where
        "snd y = s\<lparr>storedCard := slot_at s i, match := False\<rparr>\<lparr>storedCard := c, match := m\<rparr>"
        by blast
      then have "snd y = s\<lparr>storedCard := c, match := m\<rparr>" by simp
      then show ?thesis by blast
    qed
  qed
qed

lemma findID_frame:
  "findID a s = Some (r, s1) \<Longrightarrow> \<exists>c m. s1 = s\<lparr>storedCard := c, match := m\<rparr>"
  using findID_loop_frame [of a "eeprom s 0" 1 s "(r, s1)"] by (simp add: findID_def)

text \<open>A search for a candidate with a non-zero first byte that returns false has compared
  it with every slot.\<close>

lemma find_false_all:
  assumes nz: "byte_at a 0 \<noteq> 0" and f: "findID_loop a count i s = Some (False, s')"
    and n: "i \<le> n" "n \<le> count"
  shows "slot_at s n \<noteq> a"
proof
  assume eq: "slot_at s n = a"
  define P where "P k \<longleftrightarrow> i \<le> k \<and> k \<le> count \<and> slot_at s k = a" for k
  have "P n" using n eq by (simp add: P_def)
  then obtain m where m: "P m" "\<forall>k<m. \<not> P k" by (metis exists_least_iff)
  have "\<forall>k. i \<le> k \<and> k < m \<longrightarrow> slot_at s k \<noteq> a"
    using m by (auto simp: P_def)
  then have "findID_loop a count i s = Some (True, s\<lparr>storedCard := a, match := True\<rparr>)"
    using find_first [OF nz, of i m count s] m(1) by (simp add: P_def)
  then show False using f by simp
qed


subsection \<open>Appending\<close>

lemma unat_slot_start: fixes n :: u8 shows "unat n \<le> 63 \<Longrightarrow> unat (n * 4 + 2) = 4 * unat n + 2"
  by (simp add: unat_word_ariths)

lemma unat_next_start: fixes c :: u8 shows "unat c \<le> 62 \<Longrightarrow> unat (c * 4 + 6) = 4 * unat c + 6"
  by (simp add: unat_word_ariths)

lemma writeID_not_found:
  assumes "findID a s = Some (False, s1)"
  shows "writeID a s =
     Some (s1\<lparr>eeprom := (eeprom s)
                  (0 := eeprom s 0 + 1,
                   unat (eeprom s 0 * 4 + 6) := byte_at a 0,
                   unat (eeprom s 0 * 4 + 6) + 1 := byte_at a 1,
                   unat (eeprom s 0 * 4 + 6) + 2 := byte_at a 2,
                   unat (eeprom s 0 * 4 + 6) + 3 := byte_at a 3),
               trace := trace s @ [Println ''Succesfully added ID record to EEPROM'']\<rparr>)"
proof -
  obtain c m where "s1 = s\<lparr>storedCard := c, match := m\<rparr>"
    using findID_frame [OF assms] by blast
  then show ?thesis
    using assms by (simp add: writeID_def Let_def EEPROM_write_def Serial_println_def emit_def)
qed

lemma store_with_count_fields:
  "trace (store_with_count c) = []" "masterCard (store_with_count c) = Card 2 3 4 5"
  "programMode (store_with_count c) = False"
  "eeprom (store_with_count c) 0 = c" "eeprom (store_with_count c) 1 = 143"
  by (simp_all add: store_with_count_def power_on_def)

lemma store_with_count_slot:
  assumes "eeprom s = eeprom (store_with_count c)"
  shows "slot_at s n \<noteq> Card 1 1 1 1"
proof -
  let ?k = "unat (n * 4 + 2)"
  have "?k = 0 \<or> ?k = 1 \<or> 2 \<le> ?k" by arith
  moreover have "(of_nat (Suc ?k) :: u8) \<noteq> 1" if "(of_nat ?k :: u8) = 1"
  proof -
    have "(of_nat (Suc ?k) :: u8) = of_nat ?k + 1" by simp
    also have "\<dots> = 2" unfolding that by simp
    finally have e: "(of_nat (Suc ?k) :: u8) = 2" .
    show ?thesis unfolding e by simp
  qed
  ultimately show ?thesis
    by (auto simp: slot_at_def readID_eq assms store_with_count_def power_on_def
             simp del: of_nat_unat of_nat_Suc)
qed

lemma store_with_count_findID:
  assumes e: "eeprom s = eeprom (store_with_count c)" and c: "unat c < 255"
  shows "findID (Card 1 1 1 1) s =
     Some (False, if 1 \<le> c then s\<lparr>storedCard := slot_at s c, match := False\<rparr> else s)"
proof -
  have e0: "eeprom s 0 = c"
    by (simp add: e store_with_count_def power_on_def)
  show ?thesis
    unfolding findID_def e0
    by (rule find_none [OF c]) (simp add: store_with_count_slot [OF e, symmetric])
qed

lemma store_with_count_writeID:
  assumes e: "eeprom s = eeprom (store_with_count c)" and c: "unat c < 255"
  shows "writeID (Card 1 1 1 1) s =
     Some ((if 1 \<le> c then s\<lparr>storedCard := slot_at s c, match := False\<rparr> else s)
        \<lparr>eeprom := (eeprom (store_with_count c))
                  (0 := c + 1, unat (c * 4 + 6) := 1, unat (c * 4 + 6) + 1 := 1,
                   unat (c * 4 + 6) + 2 := 1, unat (c * 4 + 6) + 3 := 1),
         trace := trace s @ [Println ''Succesfully added ID record to EEPROM'']\<rparr>)"
proof -
  have e0: "eeprom (store_with_count c) 0 = c"
    by (simp add: store_with_count_def power_on_def)
  show ?thesis
    using writeID_not_found [OF store_with_count_findID [OF e c]] by (simp add: e e0)
qed

text \<open>
  C2, as claimed: once the count has reached the capacity, \<^verbatim>\<open>writeID\<close> fails with
  StorageFull. The code has no such check and no such report. With 63 records (the last
  count whose slots the 8-bit offsets address) and with 254 records (the most a 1024-byte
  EEPROM could hold) the lookup of \<open>01 01 01 01\<close> fails, and \<^verbatim>\<open>writeID\<close> returns and
  prints that the record was added.
\<close>

theorem writeID_at_capacity_counterexample:
  "map_option fst (findID (Card 1 1 1 1) (store_with_count 63)) = Some False \<and>
   map_option trace (writeID (Card 1 1 1 1) (store_with_count 63)) =
     Some [Println ''Succesfully added ID record to EEPROM''] \<and>
   map_option fst (findID (Card 1 1 1 1) (store_with_count 254)) = Some False \<and>
   map_option trace (writeID (Card 1 1 1 1) (store_with_count 254)) =
     Some [Println ''Succesfully added ID record to EEPROM'']"
  by (simp add: store_with_count_writeID store_with_count_findID store_with_count_fields)

text \<open>
  C2, amended: \<^verbatim>\<open>writeID\<close> has no capacity check and never reports StorageFull: whenever the
  lookup of the identifier fails, it returns and reports that the record was added. While
  the count is at most 62 it stores the count plus one in byte 0 and writes the four bytes of
  the identifier into slot \<open>count + 1\<close> (bytes \<open>4 * count + 6\<close> to \<open>4 * count + 9\<close>), and
  no other byte changes.
\<close>

theorem writeID_no_capacity_check:
  assumes "findID a s = Some (False, s1)"
  shows "\<exists>s2. writeID a s = Some s2 \<and>
           trace s2 = trace s @ [Println ''Succesfully added ID record to EEPROM''] \<and>
           (unat (eeprom s 0) \<le> 62 \<longrightarrow>
              eeprom s2 = (eeprom s)
                (0 := eeprom s 0 + 1,
                 4 * unat (eeprom s 0) + 6 := byte_at a 0,
                 4 * unat (eeprom s 0) + 7 := byte_at a 1,
                 4 * unat (eeprom s 0) + 8 := byte_at a 2,
                 4 * unat (eeprom s 0) + 9 := byte_at a 3) \<and>
              slot_at s2 (eeprom s 0 + 1) = a)"
proof -
  let ?c = "eeprom s 0"
  let ?s2 = "s1\<lparr>eeprom := (eeprom s)
                  (0 := ?c + 1,
                   unat (?c * 4 + 6) := byte_at a 0,
                   unat (?c * 4 + 6) + 1 := byte_at a 1,
                   unat (?c * 4 + 6) + 2 := byte_at a 2,
                   unat (?c * 4 + 6) + 3 := byte_at a 3),
               trace := trace s @ [Println ''Succesfully added ID record to EEPROM'']\<rparr>"
  have w: "writeID a s = Some ?s2" by (rule writeID_not_found [OF assms])
  have small: "eeprom ?s2 = (eeprom s)
                (0 := ?c + 1,
                 4 * unat ?c + 6 := byte_at a 0,
                 4 * unat ?c + 7 := byte_at a 1,
                 4 * unat ?c + 8 := byte_at a 2,
                 4 * unat ?c + 9 := byte_at a 3) \<and>
              slot_at ?s2 (?c + 1) = a"
    if c: "unat ?c \<le> 62"
  proof -
    have k: "unat (?c * 4 + 6) = 4 * unat ?c + 6" using c by (rule unat_next_start)
    have k': "unat ((?c + 1) * 4 + 2) = 4 * unat ?c + 6"
      using c by (simp add: unat_word_ariths)
    show ?thesis
      unfolding slot_at_def readID_eq k k' by (cases a) (simp add: add.commute)
  qed
  show ?thesis
  proof (intro exI [of _ ?s2] conjI impI)
    show "writeID a s = Some ?s2" by (rule w)
    show "trace ?s2 = trace s @ [Println ''Succesfully added ID record to EEPROM'']"
      by simp
  next
    assume "unat ?c \<le> 62"
    then show "eeprom ?s2 = (eeprom s)
                (0 := ?c + 1,
                 4 * unat ?c + 6 := byte_at a 0,
                 4 * unat ?c + 7 := byte_at a 1,
                 4 * unat ?c + 8 := byte_at a 2,
                 4 * unat ?c + 9 := byte_at a 3)"
      using small by blast
  next
    assume "unat ?c \<le> 62"
    then show "slot_at ?s2 (?c + 1) = a" using small by blast
  qed
qed

theorem writeID_no_capacity_check_witness:
  "findID (Card 1 2 3 4) power_on = Some (False, power_on) \<and>
   unat (eeprom power_on 0) \<le> 62 \<and>
   map_option trace (writeID (Card 1 2 3 4) power_on) =
     Some [Println ''Succesfully added ID record to EEPROM''] \<and>
   map_option eeprom (writeID (Card 1 2 3 4) power_on) =
     Some ((\<lambda>_. 0)(0 := 1, 6 := 1, 7 := 2, 8 := 3, 9 := 4)) \<and>
   map_option (\<lambda>s. slot_at s 1) (writeID (Card 1 2 3 4) power_on) = Some (Card 1 2 3 4)"
proof -
  have f: "findID (Card 1 2 3 4) power_on = Some (False, power_on)"
    by (simp add: findID_def findID_loop_end power_on_def)
  have e: "eeprom power_on = (\<lambda>_. 0)" "trace power_on = []"
    by (simp_all add: power_on_def)
  have c: "unat (eeprom power_on 0) \<le> 62" by (simp add: e)
  from writeID_no_capacity_check [OF f] c obtain s2 where
    "writeID (Card 1 2 3 4) power_on = Some s2"
    "trace s2 = trace power_on @ [Println ''Succesfully added ID record to EEPROM'']"
    "eeprom s2 = (eeprom power_on)
                (0 := eeprom power_on 0 + 1,
                 4 * unat (eeprom power_on 0) + 6 := byte_at (Card 1 2 3 4) 0,
                 4 * unat (eeprom power_on 0) + 7 := byte_at (Card 1 2 3 4) 1,
                 4 * unat (eeprom power_on 0) + 8 := byte_at (Card 1 2 3 4) 2,
                 4 * unat (eeprom power_on 0) + 9 := byte_at (Card 1 2 3 4) 3)"
    "slot_at s2 (eeprom power_on 0 + 1) = Card 1 2 3 4"
    by blast
  then show ?thesis using f c by (simp add: e)
qed

text \<open>
  C5. The claim: once the master card is defined, no operation of the running controller
  changes bytes 2 to 5 of the EEPROM. On a provisioned board with 63 records, adding the
  card \<open>01 01 01 01\<close> in program mode replaces the master card bytes \<open>02 03 04 05\<close> by
  \<open>01 01 01 01\<close>: the offset \<open>63 * 4 + 6 = 258\<close> does not fit the \<^verbatim>\<open>uint8_t start\<close> and
  becomes 2.
\<close>

theorem writeID_overwrites_master:
  "eeprom (store_with_count 63) 1 = 143 \<and>
   map (eeprom (store_with_count 63)) [2, 3, 4, 5] = [2, 3, 4, 5] \<and>
   map_option (\<lambda>s. map (eeprom s) [2, 3, 4, 5]) (writeID (Card 1 1 1 1) (store_with_count 63)) =
     Some [1, 1, 1, 1] \<and>
   fst (dispatch ((store_with_count 63)\<lparr>programMode := True, readCard := Card 1 1 1 1\<rparr>)) =
     Returned \<and>
   map (eeprom (snd (dispatch
          ((store_with_count 63)\<lparr>programMode := True, readCard := Card 1 1 1 1\<rparr>))))
     [2, 3, 4, 5] = [1, 1, 1, 1]"
proof -
  have m: "masterCard (store_with_count 63) = Card 2 3 4 5"
    and e: "eeprom (store_with_count 63) 1 = 143"
           "map (eeprom (store_with_count 63)) [2, 3, 4, 5] = [2, 3, 4, 5]"
    by (simp_all add: store_with_count_def power_on_def)
  show ?thesis
    by (simp add: m dispatch_def isMaster_def checkTwo_eq store_with_count_findID
          store_with_count_writeID Serial_println_def emit_def)
       (simp add: store_with_count_def power_on_def)
qed

subsection \<open>Removing\<close>

text \<open>When the lookup fails, \<^verbatim>\<open>deleteID\<close> reports the failure and writes nothing.\<close>

lemma deleteID_not_found:
  assumes "findID a s = Some (False, s1)"
  shows "deleteID a s =
           Some (s1\<lparr>trace := trace s @
                   [Println ''Failed! There is something wrong with ID or bad EEPROM'']\<rparr>) \<and>
         eeprom s1 = eeprom s"
proof -
  obtain c m where "s1 = s\<lparr>storedCard := c, match := m\<rparr>"
    using findID_frame [OF assms] by blast
  then show ?thesis
    using assms by (simp add: deleteID_def Serial_println_def emit_def)
qed

text \<open>Removing the record in the last slot: nothing is shifted, the slot is zeroed.\<close>

lemma deleteID_last_slot:
  assumes f: "findID a s = Some (True, s1)"
    and sl: "findIDSLOT a s1 = Some (eeprom s 0, s2)"
    and e: "eeprom s2 = eeprom s" "trace s2 = trace s"
  shows "deleteID a s =
     Some (s2\<lparr>eeprom := (eeprom s)
                  (0 := eeprom s 0 - 1,
                   unat (eeprom s 0 * 4 + 2) := 0,
                   unat (eeprom s 0 * 4 + 2) + 1 := 0,
                   unat (eeprom s 0 * 4 + 2) + 2 := 0,
                   unat (eeprom s 0 * 4 + 2) + 3 := 0),
               trace := trace s @ [Println ''Succesfully removed ID record from EEPROM'']\<rparr>)"
proof -
  obtain c m where s1: "s1 = s\<lparr>storedCard := c, match := m\<rparr>"
    using findID_frame [OF f] by blast
  show ?thesis
    using f sl e s1
    by (simp add: deleteID_def Let_def EEPROM_write_def Serial_println_def emit_def)
qed


text \<open>The EEPROM writes leave the log alone.\<close>

lemma trace_EEPROM_write: "trace (EEPROM_write a v s) = trace s"
  by (simp add: EEPROM_write_def)

lemma trace_fold_EEPROM_write:
  "trace (fold (\<lambda>j s. EEPROM_write (f j) (g j s) s) xs s) = trace s"
  by (induction xs arbitrary: s) (simp_all add: EEPROM_write_def)

text \<open>
  The shifting loop of \<^verbatim>\<open>deleteID\<close> reads ahead of what it writes, so it moves the bytes
  from \<open>st + 4\<close> on down by four.
\<close>

lemma eeprom_fold_shift:
  "eeprom (fold (\<lambda>j s. EEPROM_write (st + j) (eeprom s (st + 4 + j)) s) [0..<n] s0) x =
     (if st \<le> x \<and> x < st + n then eeprom s0 (x + 4) else eeprom s0 x)"
proof (induction n arbitrary: x)
  case 0
  show ?case by auto
next
  case (Suc n)
  let ?F = "fold (\<lambda>j s. EEPROM_write (st + j) (eeprom s (st + 4 + j)) s) [0..<n] s0"
  have step: "fold (\<lambda>j s. EEPROM_write (st + j) (eeprom s (st + 4 + j)) s) [0..<Suc n] s0 =
                EEPROM_write (st + n) (eeprom ?F (st + 4 + n)) ?F"
    by simp
  have a: "eeprom ?F (st + 4 + n) = eeprom s0 (st + 4 + n)"
    unfolding Suc.IH by simp
  have b: "eeprom ?F x = (if st \<le> x \<and> x < st + n then eeprom s0 (x + 4) else eeprom s0 x)"
    by (rule Suc.IH)
  have ew: "eeprom (EEPROM_write p v u) y = (if y = p then v else eeprom u y)" for p v u y
    by (simp add: EEPROM_write_def)
  have "eeprom (EEPROM_write (st + n) (eeprom ?F (st + 4 + n)) ?F) x =
          (if x = st + n then eeprom s0 (st + 4 + n)
           else if st \<le> x \<and> x < st + n then eeprom s0 (x + 4) else eeprom s0 x)"
    by (simp only: ew a b)
  also have "\<dots> = (if st \<le> x \<and> x < st + Suc n then eeprom s0 (x + 4) else eeprom s0 x)"
    by (auto simp: add.assoc add.commute add.left_commute)
  finally show ?case unfolding step .
qed

text \<open>
  With at most 63 records and an identifier whose first byte is not zero, \<^verbatim>\<open>deleteID\<close> does
  what the store expects: the count is decremented, the records behind slot \<open>m\<close> move down
  by one slot, and the four bytes of the last slot are zeroed.
\<close>

lemma deleteID_shifts:
  assumes nz: "byte_at a 0 \<noteq> 0"
    and c: "unat (eeprom s 0) \<le> 63"
    and m: "1 \<le> m" "m \<le> eeprom s 0" "slot_at s m = a"
           "\<forall>n. 1 \<le> n \<and> n < m \<longrightarrow> slot_at s n \<noteq> a"
  shows "\<exists>t. deleteID a s = Some t \<and>
           trace t = trace s @ [Println ''Succesfully removed ID record from EEPROM''] \<and>
           (\<forall>x. eeprom t x =
             (if x = 0 then eeprom s 0 - 1
              else if 4 * unat m + 2 \<le> x \<and> x < 4 * unat (eeprom s 0) + 2 then eeprom s (x + 4)
              else if 4 * unat (eeprom s 0) + 2 \<le> x \<and> x < 4 * unat (eeprom s 0) + 6 then 0
              else eeprom s x))"
proof -
  let ?c = "eeprom s 0"
  let ?s1 = "s\<lparr>storedCard := a, match := True\<rparr>"
  have f: "findID a s = Some (True, ?s1)"
    unfolding findID_def using find_first [OF nz m(1,2,3,4)] by simp
  have "slot_at ?s1 m = a" "\<forall>n. 1 \<le> n \<and> n < m \<longrightarrow> slot_at ?s1 n \<noteq> a"
    using m(3,4) slot_eeprom [of ?s1 s] by simp_all
  then have "findIDSLOT_loop a ?c 1 ?s1 = Some (m, ?s1\<lparr>storedCard := a, match := True\<rparr>)"
    using find_first [OF nz m(1,2), of ?s1] by simp
  then have g: "findIDSLOT a ?s1 = Some (m, ?s1)" by (simp add: findIDSLOT_def)
  define K where "K = unat (m * 4 + 2)"
  define L where "L = unat ((?c - m) * 4)"
  have um: "unat m \<le> unat ?c" "1 \<le> unat m" using m(1,2) by (simp_all add: word_le_nat_alt)
  have K: "K = 4 * unat m + 2" unfolding K_def using um c by (intro unat_slot_start) simp
  define w where "w = ?c - m"
  have "unat w = unat ?c - unat m" unfolding w_def using m(2) by (simp add: unat_sub)
  then have "unat (w * 4) = 4 * (unat ?c - unat m)"
    using c by (simp add: unat_word_ariths)
  then have L: "L = 4 * (unat ?c - unat m)" unfolding L_def w_def .
  let ?F = "fold (\<lambda>j s. EEPROM_write (K + j) (eeprom s (K + 4 + j)) s) [0..<L]
              (EEPROM_write 0 (?c - 1) ?s1)"
  let ?t = "(fold (\<lambda>k s. EEPROM_write (K + L + k) 0 s) [0, 1, 2, 3] ?F)
              \<lparr>trace := trace s @ [Println ''Succesfully removed ID record from EEPROM'']\<rparr>"
  have d: "deleteID a s = Some ?t"
    unfolding K_def L_def using f g
    by (simp add: deleteID_def Let_def Serial_println_def emit_def trace_fold_EEPROM_write
          trace_EEPROM_write EEPROM_write_def [of _ 0])
  have e: "eeprom ?t x =
             (if x = 0 then ?c - 1
              else if 4 * unat m + 2 \<le> x \<and> x < 4 * unat ?c + 2 then eeprom s (x + 4)
              else if 4 * unat ?c + 2 \<le> x \<and> x < 4 * unat ?c + 6 then 0
              else eeprom s x)" for x
  proof -
    have tx: "eeprom ?t x =
        (if x = K + L \<or> x = K + L + 1 \<or> x = K + L + 2 \<or> x = K + L + 3 then 0 else eeprom ?F x)"
      by (simp add: EEPROM_write_def)
    have fx: "eeprom ?F x =
        (if K \<le> x \<and> x < K + L then eeprom (EEPROM_write 0 (?c - 1) ?s1) (x + 4)
         else eeprom (EEPROM_write 0 (?c - 1) ?s1) x)"
      by (rule eeprom_fold_shift)
    have e0: "eeprom (EEPROM_write 0 (?c - 1) ?s1) y = (if y = 0 then ?c - 1 else eeprom s y)" for y
      by (simp add: EEPROM_write_def)
    have KL: "K + L = 4 * unat ?c + 2" using K L um by simp
    have "eeprom ?t x =
        (if x = K + L \<or> x = K + L + 1 \<or> x = K + L + 2 \<or> x = K + L + 3 then 0
         else if K \<le> x \<and> x < K + L then (if x + 4 = 0 then ?c - 1 else eeprom s (x + 4))
         else (if x = 0 then ?c - 1 else eeprom s x))"
      by (simp only: tx fx e0)
    also have "\<dots> =
             (if x = 0 then ?c - 1
              else if 4 * unat m + 2 \<le> x \<and> x < 4 * unat ?c + 2 then eeprom s (x + 4)
              else if 4 * unat ?c + 2 \<le> x \<and> x < 4 * unat ?c + 6 then 0
              else eeprom s x)"
      using K KL um by auto
    finally show ?thesis .
  qed
  show ?thesis
    using d e by (intro exI [of _ ?t]) simp
qed

text \<open>
  C3. The claim: for every store, when the lookup succeeds at slot \<open>s\<close>, \<^verbatim>\<open>deleteID\<close> moves
  the slots \<open>s + 1\<close> to \<open>count\<close> down by one, zeroes the last slot and decrements the count.
  With 65 records and the identifier in slot 1, \<^verbatim>\<open>looping = (65 - 1) * 4 = 256\<close> does not
  fit its \<^verbatim>\<open>uint8_t\<close> and becomes 0: the count becomes 64, slot 1 is zeroed and no
  record is moved, so slot 2 keeps its record and the store has a gap.
\<close>

theorem deleteID_looping_wraps:
  "slot_at (store_with_count 65) 1 = Card 6 7 8 9 \<and>
   slot_at (store_with_count 65) 2 = Card 10 11 12 13 \<and>
   map_option fst (findID (Card 6 7 8 9) (store_with_count 65)) = Some True \<and>
   map_option eeprom (deleteID (Card 6 7 8 9) (store_with_count 65)) =
     Some ((eeprom (store_with_count 65))(0 := 64, 6 := 0, 7 := 0, 8 := 0, 9 := 0)) \<and>
   map_option (\<lambda>s. (eeprom s 0, slot_at s 1, slot_at s 2))
     (deleteID (Card 6 7 8 9) (store_with_count 65)) =
     Some (64, Card 0 0 0 0, Card 10 11 12 13)"
proof -
  let ?s = "store_with_count 65"
  let ?a = "Card 6 7 8 9"
  have sl: "slot_at ?s 1 = ?a" "slot_at ?s 2 = Card 10 11 12 13"
    by (simp_all add: slot_at_def readID_eq store_with_count_def power_on_def)
  have e0: "eeprom ?s 0 = 65" by (simp add: store_with_count_fields)
  let ?s1 = "?s\<lparr>storedCard := ?a, match := True\<rparr>"
  have f: "findID ?a ?s = Some (True, ?s1)"
    unfolding findID_def e0 using sl(1) by (subst findID_loop_hit) simp_all
  have "slot_at ?s1 1 = ?a" using sl(1) slot_eeprom [of ?s1 ?s] by simp
  then have g: "findIDSLOT ?a ?s1 = Some (1, ?s1)"
    unfolding findIDSLOT_def by (subst findIDSLOT_loop_hit) (simp_all add: e0)
  have d: "deleteID ?a ?s =
      Some (?s1\<lparr>eeprom := (eeprom ?s)(0 := 64, 6 := 0, 7 := 0, 8 := 0, 9 := 0),
                 trace := [Println ''Succesfully removed ID record from EEPROM'']\<rparr>)"
    using f g
    by (simp add: deleteID_def Let_def e0 EEPROM_write_def Serial_println_def emit_def
          store_with_count_fields)
  show ?thesis
    using sl f d
    by (simp add: slot_at_def readID_eq)
qed

text \<open>
  C4, as claimed: for all identifiers, \<^verbatim>\<open>writeID\<close> followed by \<^verbatim>\<open>deleteID\<close> restores the
  count. For \<open>00 01 02 03\<close> on an empty store the record is written and the count becomes 1,
  but the comparator never matches a first byte of zero, so \<^verbatim>\<open>deleteID\<close> reports a failure
  and the count stays 1.
\<close>

theorem append_remove_zero_first_counterexample:
  "map_option fst (findID (Card 0 1 2 3) power_on) = Some False \<and>
   eeprom power_on 0 = 0 \<and>
   map_option (\<lambda>s. eeprom s 0)
     (Option.bind (writeID (Card 0 1 2 3) power_on) (deleteID (Card 0 1 2 3))) = Some 1 \<and>
   map_option (\<lambda>s. last (trace s))
     (Option.bind (writeID (Card 0 1 2 3) power_on) (deleteID (Card 0 1 2 3))) =
     Some (Println ''Failed! There is something wrong with ID or bad EEPROM'')"
proof -
  let ?a = "Card 0 1 2 3"
  have p: "eeprom power_on 0 = 0" "eeprom power_on = (\<lambda>_. 0)" "trace power_on = []"
    "match power_on = False"
    by (simp_all add: power_on_def)
  have f1: "findID ?a power_on = Some (False, power_on)"
    by (simp add: findID_def findID_loop_end p)
  let ?s2 = "power_on\<lparr>eeprom := (\<lambda>_. 0)(0 := 1, 6 := 0, 7 := 1, 8 := 2, 9 := 3),
                       trace := [Println ''Succesfully added ID record to EEPROM'']\<rparr>"
  have w: "writeID ?a power_on = Some ?s2"
    using writeID_not_found [OF f1] by (simp add: p)
  let ?s3 = "?s2\<lparr>storedCard := slot_at ?s2 1, match := False\<rparr>"
  have "findID_loop ?a 1 1 ?s2 = findID_loop ?a 1 (1 + 1) ?s3"
    by (rule findID_loop_step) (simp_all add: p)
  also have "\<dots> = Some (False, ?s3)"
    by (rule findID_loop_end) (simp add: word_le_nat_alt)
  finally have f2: "findID ?a ?s2 = Some (False, ?s3)"
    by (simp add: findID_def)
  have d: "deleteID ?a ?s2 =
      Some (?s3\<lparr>trace := trace ?s2 @
              [Println ''Failed! There is something wrong with ID or bad EEPROM'']\<rparr>)"
    using deleteID_not_found [OF f2] by simp
  show ?thesis
    by (simp add: f1 w d p(1))
qed

text \<open>
  C4, amended: for every identifier whose first byte is not zero and every store of at most
  62 records in which the lookup of the identifier fails, \<^verbatim>\<open>writeID\<close> followed by
  \<^verbatim>\<open>deleteID\<close> restores the count and leaves every record in its slot; the only bytes
  that may differ from the original EEPROM are the four of slot \<open>count + 1\<close>, now zero.
\<close>

theorem append_then_remove:
  assumes nz: "byte_at a 0 \<noteq> 0"
    and c: "unat (eeprom s 0) \<le> 62"
    and nf: "findID a s = Some (False, s1)"
  shows "\<exists>s2 s3. writeID a s = Some s2 \<and> deleteID a s2 = Some s3 \<and>
           eeprom s3 0 = eeprom s 0 \<and>
           (\<forall>n. 1 \<le> n \<and> n \<le> eeprom s 0 \<longrightarrow> slot_at s3 n = slot_at s n) \<and>
           eeprom s3 = (eeprom s)
             (4 * unat (eeprom s 0) + 6 := 0, 4 * unat (eeprom s 0) + 7 := 0,
              4 * unat (eeprom s 0) + 8 := 0, 4 * unat (eeprom s 0) + 9 := 0)"
proof -
  let ?c = "eeprom s 0"
  let ?k = "4 * unat ?c + 6"
  let ?E = "(eeprom s)(0 := ?c + 1, ?k := byte_at a 0, ?k + 1 := byte_at a 1,
                       ?k + 2 := byte_at a 2, ?k + 3 := byte_at a 3)"
  let ?s2 = "s1\<lparr>eeprom := ?E,
                 trace := trace s @ [Println ''Succesfully added ID record to EEPROM'']\<rparr>"
  have k: "unat (?c * 4 + 6) = ?k" using c by (rule unat_next_start)
  have w: "writeID a s = Some ?s2"
    using writeID_not_found [OF nf] by (simp add: k)
  have c1: "unat (?c + 1) = Suc (unat ?c)" using c by (intro unat_succ) simp
  have k1: "unat ((?c + 1) * 4 + 2) = ?k"
    using unat_slot_start [of "?c + 1"] c1 c by simp
  have e2: "eeprom ?s2 = ?E" "eeprom ?s2 0 = ?c + 1" by simp_all
  \<comment> \<open>the old slots are where they were, and the new one holds the identifier\<close>
  have old: "slot_at ?s2 n = slot_at s n" if n: "1 \<le> n" "n \<le> ?c" for n
  proof -
    have "1 \<le> unat n" "unat n \<le> unat ?c" using n by (simp_all add: word_le_nat_alt)
    then have u: "unat (n * 4 + 2) = 4 * unat n + 2" "4 * unat n + 5 < ?k" "0 < 4 * unat n + 2"
      using c unat_slot_start [of n] by simp_all
    show ?thesis unfolding slot_at_def readID_eq u(1) using u(2,3) by simp
  qed
  have new: "slot_at ?s2 (?c + 1) = a"
    unfolding slot_at_def readID_eq k1 by (cases a) simp
  have other: "slot_at s n \<noteq> a" if "1 \<le> n" "n \<le> ?c" for n
    using find_false_all [OF nz nf [unfolded findID_def] that] .
  have before: "\<forall>n. 1 \<le> n \<and> n < ?c + 1 \<longrightarrow> slot_at t n \<noteq> a" if t: "eeprom t = eeprom ?s2" for t
  proof (intro allI impI)
    fix n assume n: "1 \<le> n \<and> n < ?c + 1"
    then have "n \<le> ?c" using c1 by (simp add: word_le_nat_alt word_less_nat_alt)
    then have "slot_at ?s2 n \<noteq> a" using old other n by simp
    then show "slot_at t n \<noteq> a" using slot_eeprom [OF t] by simp
  qed
  have one: "1 \<le> ?c + 1" using c1 by (simp add: word_le_nat_alt)
  \<comment> \<open>both searches of \<^verbatim>\<open>deleteID\<close> stop at the new slot\<close>
  let ?s3 = "?s2\<lparr>storedCard := a, match := True\<rparr>"
  have f2: "findID a ?s2 = Some (True, ?s3)"
    unfolding findID_def e2(2)
    using find_first [OF nz one order_refl new before [OF refl]] by simp
  have "slot_at ?s3 (?c + 1) = a" using new slot_eeprom [of ?s3 ?s2] by simp
  then have "findIDSLOT_loop a (?c + 1) 1 ?s3 = Some (?c + 1, ?s3\<lparr>storedCard := a, match := True\<rparr>)"
    using find_first [OF nz one order_refl _ before [of ?s3]] by simp
  then have sl: "findIDSLOT a ?s3 = Some (eeprom ?s2 0, ?s3)"
    by (simp add: findIDSLOT_def)
  have d: "deleteID a ?s2 =
     Some (?s3\<lparr>eeprom := (eeprom ?s2)
                  (0 := eeprom ?s2 0 - 1,
                   unat (eeprom ?s2 0 * 4 + 2) := 0,
                   unat (eeprom ?s2 0 * 4 + 2) + 1 := 0,
                   unat (eeprom ?s2 0 * 4 + 2) + 2 := 0,
                   unat (eeprom ?s2 0 * 4 + 2) + 3 := 0),
               trace := trace ?s2 @ [Println ''Succesfully removed ID record from EEPROM'']\<rparr>)"
    by (rule deleteID_last_slot [OF f2 sl]) simp_all
  let ?F = "(eeprom s)(?k := 0, ?k + 1 := 0, ?k + 2 := 0, ?k + 3 := 0)"
  have F: "?E(0 := ?c + 1 - 1, ?k := 0, ?k + 1 := 0, ?k + 2 := 0, ?k + 3 := 0) = ?F"
    by (rule ext) simp
  let ?s4 = "?s3\<lparr>eeprom := ?F,
               trace := trace ?s2 @ [Println ''Succesfully removed ID record from EEPROM'']\<rparr>"
  have d': "deleteID a ?s2 = Some ?s4"
    using d [unfolded e2(2), unfolded k1, unfolded e2(1) F] .
  have slots: "slot_at ?s4 n = slot_at s n" if n: "1 \<le> n" "n \<le> ?c" for n
  proof -
    have "1 \<le> unat n" "unat n \<le> unat ?c" using n by (simp_all add: word_le_nat_alt)
    then have u: "unat (n * 4 + 2) = 4 * unat n + 2" "4 * unat n + 5 < ?k"
      using c unat_slot_start [of n] by simp_all
    show ?thesis unfolding slot_at_def readID_eq u(1) using u(2) by simp
  qed
  show ?thesis
  proof (intro exI conjI)
    show "writeID a s = Some ?s2" by (rule w)
    show "deleteID a ?s2 = Some ?s4" by (rule d')
    show "eeprom ?s4 0 = ?c" by simp
    show "\<forall>n. 1 \<le> n \<and> n \<le> ?c \<longrightarrow> slot_at ?s4 n = slot_at s n"
      using slots by blast
    show "eeprom ?s4 = (eeprom s)
             (4 * unat ?c + 6 := 0, 4 * unat ?c + 7 := 0,
              4 * unat ?c + 8 := 0, 4 * unat ?c + 9 := 0)"
      by (simp add: add.commute)
  qed
qed


theorem append_then_remove_witness:
  "byte_at (Card 1 1 1 1) 0 \<noteq> 0 \<and> unat (eeprom (store_with_count 2) 0) \<le> 62 \<and>
   map_option fst (findID (Card 1 1 1 1) (store_with_count 2)) = Some False \<and>
   map_option (\<lambda>s. (eeprom s 0, slot_at s 1, slot_at s 2))
     (Option.bind (writeID (Card 1 1 1 1) (store_with_count 2)) (deleteID (Card 1 1 1 1))) =
     Some (2, Card 6 7 8 9, Card 10 11 12 13) \<and>
   slot_at (store_with_count 2) 1 = Card 6 7 8 9 \<and>
   slot_at (store_with_count 2) 2 = Card 10 11 12 13"
proof -
  let ?s = "store_with_count 2"
  have nz: "byte_at (Card 1 1 1 1) 0 \<noteq> 0" by simp
  have c: "unat (eeprom ?s 0) \<le> 62" by (simp add: store_with_count_fields)
  have f: "findID (Card 1 1 1 1) ?s =
      Some (False, if 1 \<le> (2 :: u8) then ?s\<lparr>storedCard := slot_at ?s 2, match := False\<rparr> else ?s)"
    by (rule store_with_count_findID) simp_all
  have sl: "slot_at ?s 1 = Card 6 7 8 9" "slot_at ?s 2 = Card 10 11 12 13"
    by (simp_all add: slot_at_def readID_eq store_with_count_def power_on_def)
  from append_then_remove [OF nz c f] obtain s2 s3 where
    "writeID (Card 1 1 1 1) ?s = Some s2" "deleteID (Card 1 1 1 1) s2 = Some s3"
    "eeprom s3 0 = eeprom ?s 0"
    "\<forall>n. 1 \<le> n \<and> n \<le> eeprom ?s 0 \<longrightarrow> slot_at s3 n = slot_at ?s n"
    by blast
  then show ?thesis using nz c f sl by (simp add: store_with_count_fields)
qed

section \<open>Properties of the door actuator\<close>

lemma closeDoor_loop_unsafe:
  "\<forall>v \<in> set (distance s). \<not> (v > 14 \<and> v < 20) \<Longrightarrow>
   closeDoor_loop s =
     (Starved, s\<lparr>distance := [], trace := trace s @ concat (map sample (distance s))\<rparr>)"
proof (induction "distance s" arbitrary: s)
  case Nil
  then show ?case by (subst closeDoor_loop_unfold) simp
next
  case (Cons v vs)
  let ?s = "s\<lparr>distance := vs, trace := trace s @ [DistanceRead v, PrintlnDec v, Delay 500]\<rparr>"
  have "closeDoor_loop s = closeDoor_loop ?s"
    using Cons.hyps(2) [symmetric] Cons.prems by (subst closeDoor_loop_unfold) auto
  moreover have "closeDoor_loop ?s =
      (Starved, ?s\<lparr>distance := [], trace := trace ?s @ concat (map sample (distance ?s))\<rparr>)"
    using Cons.hyps(2) [symmetric] Cons.prems by (intro Cons.hyps(1)) auto
  moreover have "concat (map sample (v # vs)) =
      [DistanceRead v, PrintlnDec v, Delay 500] @ concat (map sample vs)"
    by (simp add: sample_def)
  ultimately show ?case
    using Cons.hyps(2) [symmetric] by simp
qed

lemma closeDoor_loop_clear:
  "distance s = pre @ v # post \<Longrightarrow> \<forall>u \<in> set pre. \<not> (u > 14 \<and> u < 20) \<Longrightarrow> v > 14 \<and> v < 20 \<Longrightarrow>
   closeDoor_loop s =
     (Returned, s\<lparr>distance := post, trace := trace s @ concat (map sample (pre @ [v]))\<rparr>)"
proof (induction pre arbitrary: s)
  case Nil
  then show ?case by (subst closeDoor_loop_unfold) (simp add: sample_def)
next
  case (Cons u us)
  let ?s = "s\<lparr>distance := us @ v # post, trace := trace s @ [DistanceRead u, PrintlnDec u, Delay 500]\<rparr>"
  have "closeDoor_loop s = closeDoor_loop ?s"
    using Cons.prems by (subst closeDoor_loop_unfold) auto
  moreover have "closeDoor_loop ?s =
      (Returned, ?s\<lparr>distance := post, trace := trace ?s @ concat (map sample (us @ [v]))\<rparr>)"
    using Cons.prems by (intro Cons.IH) auto
  moreover have "concat (map sample ((u # us) @ [v])) =
      [DistanceRead u, PrintlnDec u, Delay 500] @ concat (map sample (us @ [v]))"
    by (simp add: sample_def)
  ultimately show ?case by simp
qed

text \<open>
  C7. \<^verbatim>\<open>closeDoor\<close> energises the close output only after a distance reading strictly
  between 14 and 20. It waits 2000 ms, then samples every 500 ms; while every reading is
  outside the band it is still waiting, whatever the number of readings, and the log holds
  no write to \<^verbatim>\<open>motLow\<close>. At the first reading inside the band it drives \<^verbatim>\<open>motLow\<close> high for
  10200 ms, drives it low and returns.
\<close>

theorem closeDoor_waits_for_clear:
  "((\<forall>v \<in> set (distance s). \<not> (v > 14 \<and> v < 20)) \<longrightarrow>
      closeDoor s =
        (Starved, s\<lparr>distance := [],
                     trace := trace s @ [Delay 2000] @ concat (map sample (distance s))\<rparr>)) \<and>
   (\<forall>pre v post. distance s = pre @ v # post \<and> (\<forall>u \<in> set pre. \<not> (u > 14 \<and> u < 20)) \<and>
        v > 14 \<and> v < 20 \<longrightarrow>
      closeDoor s =
        (Returned, s\<lparr>distance := post,
                      trace := trace s @ [Delay 2000] @ concat (map sample (pre @ [v])) @
                               [DigitalWrite motLow HIGH, Delay 10200, DigitalWrite motLow LOW]\<rparr>))"
proof (intro conjI allI impI)
  assume "\<forall>v \<in> set (distance s). \<not> (v > 14 \<and> v < 20)"
  then have "closeDoor_loop (delay 2000 s) =
      (Starved, (delay 2000 s)\<lparr>distance := [],
          trace := trace (delay 2000 s) @ concat (map sample (distance (delay 2000 s)))\<rparr>)"
    by (intro closeDoor_loop_unsafe) (simp add: delay_def emit_def)
  then show "closeDoor s =
        (Starved, s\<lparr>distance := [],
                     trace := trace s @ [Delay 2000] @ concat (map sample (distance s))\<rparr>)"
    by (simp add: closeDoor_def andThen_def delay_def emit_def)
next
  fix pre v post
  assume a: "distance s = pre @ v # post \<and> (\<forall>u \<in> set pre. \<not> (u > 14 \<and> u < 20)) \<and> v > 14 \<and> v < 20"
  then have "closeDoor_loop (delay 2000 s) =
      (Returned, (delay 2000 s)\<lparr>distance := post,
          trace := trace (delay 2000 s) @ concat (map sample (pre @ [v]))\<rparr>)"
    by (intro closeDoor_loop_clear) (simp_all add: delay_def emit_def)
  then show "closeDoor s =
        (Returned, s\<lparr>distance := post,
                      trace := trace s @ [Delay 2000] @ concat (map sample (pre @ [v])) @
                               [DigitalWrite motLow HIGH, Delay 10200, DigitalWrite motLow LOW]\<rparr>)"
    by (simp add: closeDoor_def andThen_def delay_def emit_def digitalWrite_def)
qed

theorem closeDoor_waits_for_clear_witness:
  "closeDoor (power_on\<lparr>distance := [30, 10]\<rparr>) =
     (Starved, power_on\<lparr>distance := [],
        trace := [Delay 2000, DistanceRead 30, PrintlnDec 30, Delay 500,
                  DistanceRead 10, PrintlnDec 10, Delay 500]\<rparr>) \<and>
   closeDoor (power_on\<lparr>distance := [30, 15, 40]\<rparr>) =
     (Returned, power_on\<lparr>distance := [40],
        trace := [Delay 2000, DistanceRead 30, PrintlnDec 30, Delay 500,
                  DistanceRead 15, PrintlnDec 15, Delay 500,
                  DigitalWrite motLow HIGH, Delay 10200, DigitalWrite motLow LOW]\<rparr>)"
proof
  show "closeDoor (power_on\<lparr>distance := [30, 10]\<rparr>) =
     (Starved, power_on\<lparr>distance := [],
        trace := [Delay 2000, DistanceRead 30, PrintlnDec 30, Delay 500,
                  DistanceRead 10, PrintlnDec 10, Delay 500]\<rparr>)"
    using closeDoor_waits_for_clear [of "power_on\<lparr>distance := [30, 10]\<rparr>", THEN conjunct1]
    by (simp add: power_on_def sample_def)
next
  show "closeDoor (power_on\<lparr>distance := [30, 15, 40]\<rparr>) =
     (Returned, power_on\<lparr>distance := [40],
        trace := [Delay 2000, DistanceRead 30, PrintlnDec 30, Delay 500,
                  DistanceRead 15, PrintlnDec 15, Delay 500,
                  DigitalWrite motLow HIGH, Delay 10200, DigitalWrite motLow LOW]\<rparr>)"
    using closeDoor_waits_for_clear [of "power_on\<lparr>distance := [30, 15, 40]\<rparr>",
        THEN conjunct2, rule_format, of "[30]" 15 "[40]"]
    by (simp add: power_on_def sample_def)
qed

section \<open>Properties of the access controller\<close>

subsection \<open>Sequencing\<close>

lemma andThen_simps:
  "andThen (Returned, s) f = f s" "andThen (Halted, s) f = (Halted, s)"
  "andThen (Starved, s) f = (Starved, s)" "andThen (Hung, s) f = (Hung, s)"
  by (simp_all add: andThen_def)

lemma andThen_assoc: "andThen (andThen r f) g = andThen r (\<lambda>s. andThen (f s) g)"
  by (cases r; cases "fst r") (simp_all add: andThen_def)

lemma loop_phases:
  "loop s =
     andThen
       (andThen (checkClose (digitalWrite rc LOW (digitalWrite motLow LOW (digitalWrite motHigh LOW s))))
          poll)
       dispatch"
  by (simp add: loop_def andThen_assoc)

subsection \<open>Scanning the master card in normal mode\<close>

text \<open>
  C6, as claimed: in normal mode a scan of the master card always leads to program mode. On
  a freshly started board whose master card is \<open>00 09 09 09\<close> the scan of that card is
  compared by \<^verbatim>\<open>checkTwo\<close> with \<^verbatim>\<open>match\<close> false and a first byte of zero: it is not taken
  for the master card, the store is searched, and the controller stays in normal mode and
  denies access.
\<close>

theorem master_zero_first_counterexample:
  "programMode zero_master_scan = False \<and>
   masterCard zero_master_scan = Card 0 9 9 9 \<and>
   fst (loop zero_master_scan) = Returned \<and>
   readCard (snd (loop zero_master_scan)) = Card 0 9 9 9 \<and>
   programMode (snd (loop zero_master_scan)) = False \<and>
   last (trace (snd (loop zero_master_scan))) = Println ''You shall not pass''"
  by (simp add: zero_master_scan_def zero_master_def power_on_def evals)

text \<open>
  C6, amended: in normal mode, when the card read is the master card and its first byte is
  not zero, the controller enters program mode: \<^verbatim>\<open>loop()\<close> only sets \<^verbatim>\<open>programMode\<close> (and
  \<^verbatim>\<open>match\<close>) and prints the announcement with the count. The EEPROM is unchanged, so neither
  \<^verbatim>\<open>writeID\<close> nor \<^verbatim>\<open>deleteID\<close> has run, and no pin is written, so no access is granted.
  This holds for every content of the store, the empty one included.
\<close>

theorem master_scan_enters_program:
  assumes "\<not> programMode s" "readCard s = masterCard s" "byte_at (masterCard s) 0 \<noteq> 0"
  shows "dispatch s =
     (Returned, s\<lparr>match := True, programMode := True,
        trace := trace s @
          [Println ''Hello Master - Entered Program Mode'', Print ''I have '',
           PrintDec (uint (eeprom s 0)), Print '' record(s) on EEPROM'', Println [],
           Println ''Scan a PICC to ADD or REMOVE to EEPROM'',
           Println ''Scan Master Card again to Exit Program Mode'',
           Println ''-----------------------------'']\<rparr>) \<and>
     (andThen (checkClose (digitalWrite rc LOW (digitalWrite motLow LOW (digitalWrite motHigh LOW s0))))
        poll = (Returned, s) \<longrightarrow>
      loop s0 = dispatch s)"
  using assms
  by (simp add: loop_phases andThen_simps)
     (simp add: dispatch_def isMaster_def checkTwo_eq Let_def Serial_println_def Serial_print_def
        emit_def)

theorem master_scan_enters_program_witness:
  "\<not> programMode master_scan \<and> eeprom master_scan 0 = 0 \<and>
   masterCard master_scan = Card 2 3 4 5 \<and>
   loop master_scan =
     (Returned, master_scan\<lparr>match := True, programMode := True, successRead := 1,
        readCard := Card 2 3 4 5, reader := [], distance := [], gas := [],
        userOpen_in := [], wipeB_in := [],
        trace :=
          [DigitalWrite motHigh LOW, DigitalWrite motLow LOW, DigitalWrite rc LOW,
           DistanceRead 0, GetID (Some (Card 2 3 4 5)), Println ''Scanned PICC's UID:'',
           PrintHex 2, PrintHex 3, PrintHex 4, PrintHex 5, Println [],
           AnalogRead 0, AnalogRead 0, AnalogRead 0, AnalogRead 0,
           DigitalRead userOpen HIGH, DigitalRead wipeB HIGH,
           Println ''Hello Master - Entered Program Mode'', Print ''I have '',
           PrintDec 0, Print '' record(s) on EEPROM'', Println [],
           Println ''Scan a PICC to ADD or REMOVE to EEPROM'',
           Println ''Scan Master Card again to Exit Program Mode'',
           Println ''-----------------------------'']\<rparr>)"
proof -
  let ?t = "master_scan\<lparr>successRead := 1,
        readCard := Card 2 3 4 5, reader := [], distance := [], gas := [],
        userOpen_in := [], wipeB_in := [],
        trace :=
          [DigitalWrite motHigh LOW, DigitalWrite motLow LOW, DigitalWrite rc LOW,
           DistanceRead 0, GetID (Some (Card 2 3 4 5)), Println ''Scanned PICC's UID:'',
           PrintHex 2, PrintHex 3, PrintHex 4, PrintHex 5, Println [],
           AnalogRead 0, AnalogRead 0, AnalogRead 0, AnalogRead 0,
           DigitalRead userOpen HIGH, DigitalRead wipeB HIGH]\<rparr>"
  have f: "\<not> programMode ?t" "readCard ?t = masterCard ?t" "byte_at (masterCard ?t) 0 \<noteq> 0"
    "eeprom ?t 0 = 0" "masterCard master_scan = Card 2 3 4 5"
    by (simp_all add: master_scan_def store_with_count_def power_on_def)
  have p: "andThen (checkClose (digitalWrite rc LOW (digitalWrite motLow LOW
              (digitalWrite motHigh LOW master_scan)))) poll = (Returned, ?t)"
    by (simp add: master_scan_def store_with_count_def power_on_def prims checkClose_def
          poll_unfold poll_body_def checkSmoke_unfold)
  show ?thesis
    using master_scan_enters_program [OF f(1,2,3), of master_scan] p f(4,5)
    by (simp add: master_scan_def store_with_count_def power_on_def)
qed

section \<open>Properties of the safety monitor\<close>

lemma checkSmoke_loop_trip:
  "gas s = pre @ j # post \<Longrightarrow> length pre < n \<Longrightarrow> \<forall>v \<in> set pre. \<not> v > 100 \<Longrightarrow> j > 100 \<Longrightarrow>
   checkSmoke_loop n s =
     (Halted, funopenDoor (Serial_println ''Alarm triggered!! Press reset to reset door.''
                (s\<lparr>gas := post, trace := trace s @ map AnalogRead (pre @ [j])\<rparr>)))"
proof (induction pre arbitrary: n s)
  case Nil
  then obtain k where "n = Suc k" by (cases n) auto
  then show ?case using Nil by (simp add: analogRead_smokePin_def emit_def)
next
  case (Cons v vs)
  then obtain k where n: "n = Suc k" by (cases n) auto
  let ?s = "s\<lparr>gas := vs @ j # post, trace := trace s @ [AnalogRead v]\<rparr>"
  have "checkSmoke_loop n s = checkSmoke_loop k ?s"
    using Cons.prems n by (simp add: analogRead_smokePin_def emit_def)
  moreover have "checkSmoke_loop k ?s =
     (Halted, funopenDoor (Serial_println ''Alarm triggered!! Press reset to reset door.''
                (?s\<lparr>gas := post, trace := trace ?s @ map AnalogRead (vs @ [j])\<rparr>)))"
    using Cons.prems n by (intro Cons.IH) auto
  ultimately show ?case by simp
qed

lemma poll_halted: "poll_body s = (Halted, h) \<Longrightarrow> poll s = (Halted, h)"
  by (simp add: poll_unfold)

lemma run_halted: "loop s = (Halted, h) \<Longrightarrow> run (Suc n) s = (Halted, h)"
  by (simp add: andThen_simps)

text \<open>
  C9. \<^verbatim>\<open>checkSmoke\<close> takes up to four samples; at the first one above 100 it prints the alarm,
  runs \<^verbatim>\<open>funopenDoor\<close> and stops in \<^verbatim>\<open>while(1)\<close>, in either mode. The poll in which this
  happens ends \<open>Halted\<close> in the state \<open>h\<close> that the open cycle left, and so do \<^verbatim>\<open>loop()\<close>
  and every further call of it: after \<open>h\<close> nothing is read, written or logged.
\<close>

theorem smoke_alarm_halts:
  assumes g: "gas t = pre @ j # post" "length pre < 4" "\<forall>v \<in> set pre. \<not> v > 100" "j > 100"
    and h: "h = t\<lparr>gas := post,
               trace := trace t @ map AnalogRead (pre @ [j]) @
                 [Println ''Alarm triggered!! Press reset to reset door.'',
                  Delay 2000, DigitalWrite motHigh HIGH, Delay 10000,
                  DigitalWrite motHigh LOW, Delay 2000]\<rparr>"
  shows "checkSmoke t = (Halted, h) \<and>
         (\<forall>s0 r t0. getID s0 = Some (r, t0) \<and> t = t0\<lparr>successRead := r\<rparr> \<longrightarrow>
            poll s0 = (Halted, h) \<and>
            (\<forall>s1 s2 n.
               checkClose (digitalWrite rc LOW (digitalWrite motLow LOW
                 (digitalWrite motHigh LOW s1))) = (Returned, s2) \<and> poll s2 = poll s0 \<longrightarrow>
               loop s1 = (Halted, h) \<and> run (Suc n) s1 = (Halted, h)))"
proof -
  have cs: "checkSmoke t = (Halted, h)"
    unfolding checkSmoke_def h
    using checkSmoke_loop_trip [OF g(1,2,3,4)]
    by (simp add: funopenDoor_def Serial_println_def delay_def digitalWrite_def emit_def)
  have p: "poll s0 = (Halted, h)" if "getID s0 = Some (r, t0)" "t = t0\<lparr>successRead := r\<rparr>"
    for s0 r t0
    using that cs by (intro poll_halted) (simp add: poll_body_def andThen_simps)
  have l: "loop s1 = (Halted, h) \<and> run (Suc n) s1 = (Halted, h)"
    if "checkClose (digitalWrite rc LOW (digitalWrite motLow LOW
          (digitalWrite motHigh LOW s1))) = (Returned, s2)" "poll s2 = (Halted, h)"
    for s1 s2 n
  proof -
    have "loop s1 = (Halted, h)" using that by (simp add: loop_phases andThen_simps)
    then show ?thesis by (simp add: andThen_simps)
  qed
  show ?thesis using cs p l by metis
qed


theorem smoke_alarm_halts_witness:
  "programMode smoke_scan \<and>
   run 3 smoke_scan =
     (Halted, smoke_scan\<lparr>reader := [], distance := [], gas := [7],
        trace :=
          [DigitalWrite motHigh LOW, DigitalWrite motLow LOW, DigitalWrite rc LOW,
           DistanceRead 0, GetID None, AnalogRead 50, AnalogRead 120,
           Println ''Alarm triggered!! Press reset to reset door.'',
           Delay 2000, DigitalWrite motHigh HIGH, Delay 10000,
           DigitalWrite motHigh LOW, Delay 2000]\<rparr>)"
proof -
  let ?s2 = "smoke_scan\<lparr>distance := [],
        trace := [DigitalWrite motHigh LOW, DigitalWrite motLow LOW, DigitalWrite rc LOW,
                  DistanceRead 0]\<rparr>"
  let ?t0 = "?s2\<lparr>reader := [], trace := trace ?s2 @ [GetID None]\<rparr>"
  let ?t = "?t0\<lparr>successRead := 0\<rparr>"
  let ?h = "?t\<lparr>gas := [7],
               trace := trace ?t @ map AnalogRead ([50] @ [120]) @
                 [Println ''Alarm triggered!! Press reset to reset door.'',
                  Delay 2000, DigitalWrite motHigh HIGH, Delay 10000,
                  DigitalWrite motHigh LOW, Delay 2000]\<rparr>"
  have g: "gas ?t = [50] @ 120 # [7]" "length [50 :: int] < 4"
    "\<forall>v \<in> set [50 :: int]. \<not> v > 100" "(120 :: int) > 100"
    by (simp_all add: smoke_scan_def power_on_def)
  have gi: "getID ?s2 = Some (0, ?t0)"
    by (simp add: getID_def emit_def smoke_scan_def power_on_def)
  have cc: "checkClose (digitalWrite rc LOW (digitalWrite motLow LOW
              (digitalWrite motHigh LOW smoke_scan))) = (Returned, ?s2)"
    by (simp add: checkClose_def prims smoke_scan_def power_on_def)
  have "run (Suc 2) smoke_scan = (Halted, ?h)"
    using smoke_alarm_halts [OF g refl, THEN conjunct2, rule_format, of ?s2 0 ?t0,
        THEN conjunct2, rule_format, of smoke_scan ?s2 2] gi cc
    by simp
  moreover have "Suc 2 = 3" by simp
  ultimately show ?thesis
    by (simp add: smoke_scan_def power_on_def)
qed

section \<open>Properties of the control loop\<close>

subsection \<open>Every function extends the log by an interlocked piece\<close>

lemma interlocked_append:
  "interlocked hl (xs @ ys) \<longleftrightarrow> interlocked hl xs \<and> interlocked (foldl drive hl xs) ys"
proof (induction xs arbitrary: hl)
  case Nil
  show ?case by (cases ys) auto
next
  case (Cons x xs)
  then show ?case by auto
qed

lemma idle_Nil: "idle []"
  by (simp add: idle_def)

lemma idle_append: "idle xs \<Longrightarrow> idle ys \<Longrightarrow> idle (xs @ ys)"
  by (simp add: idle_def interlocked_append)

lemma neutral_drive: "neutral e \<Longrightarrow> drive hl e = hl"
  by (cases e; cases hl) auto

lemma idle_neutral: "neutral e \<Longrightarrow> idle [e]"
  by (simp add: idle_def neutral_drive)

lemma extends_refl: "extends s s"
  by (auto simp: extends_def idle_Nil)

lemma extends_trans: "extends s t \<Longrightarrow> extends t u \<Longrightarrow> extends s u"
  by (auto simp: extends_def intro: idle_append)

lemma extends_same: "trace t = trace s \<Longrightarrow> extends s t"
  by (simp add: extends_def idle_Nil)

lemma extends_emit: "neutral e \<Longrightarrow> extends s t \<Longrightarrow> extends s (emit e t)"
  by (rule extends_trans [of s t]) (auto simp: extends_def emit_def idle_neutral)

lemma extends_funopenDoor: "extends s t \<Longrightarrow> extends s (funopenDoor t)"
proof (rule extends_trans [of s t])
  show "extends t (funopenDoor t)"
    by (simp add: extends_def funopenDoor_def delay_def digitalWrite_def emit_def idle_def)
qed

lemma extends_close_drive:
  "extends s t \<Longrightarrow> extends s (digitalWrite motLow LOW (delay 10200 (digitalWrite motLow HIGH t)))"
proof (rule extends_trans [of s t])
  show "extends t (digitalWrite motLow LOW (delay 10200 (digitalWrite motLow HIGH t)))"
    by (simp add: extends_def delay_def digitalWrite_def emit_def idle_def)
qed

lemma extends_upd:
  "extends s (t\<lparr>eeprom := e\<rparr>) = extends s t"
  "extends s (t\<lparr>match := m\<rparr>) = extends s t"
  "extends s (t\<lparr>programMode := pm\<rparr>) = extends s t"
  "extends s (t\<lparr>successRead := sr\<rparr>) = extends s t"
  "extends s (t\<lparr>storedCard := sc\<rparr>) = extends s t"
  "extends s (t\<lparr>readCard := c\<rparr>) = extends s t"
  "extends s (t\<lparr>masterCard := mc\<rparr>) = extends s t"
  "extends s (t\<lparr>reader := rd\<rparr>) = extends s t"
  "extends s (t\<lparr>distance := ds\<rparr>) = extends s t"
  "extends s (t\<lparr>gas := gs\<rparr>) = extends s t"
  "extends s (t\<lparr>userOpen_in := us\<rparr>) = extends s t"
  "extends s (t\<lparr>wipeB_in := ws\<rparr>) = extends s t"
  by (simp_all add: extends_def)

lemmas extends_intros = extends_refl extends_emit extends_funopenDoor extends_close_drive

lemma extends_closeDoor_loop: "extends s t \<Longrightarrow> extends s (snd (closeDoor_loop t))"
proof (induction t rule: closeDoor_loop.induct)
  case (1 t)
  show ?case
  proof (cases "distance t")
    case Nil
    then show ?thesis using 1(2) by (subst closeDoor_loop_unfold) simp
  next
    case (Cons v vs)
    let ?t = "t\<lparr>distance := vs, trace := trace t @ [DistanceRead v, PrintlnDec v, Delay 500]\<rparr>"
    have e: "?t = delay 500 (emit (PrintlnDec v) (emit (DistanceRead v) (t\<lparr>distance := vs\<rparr>)))"
      by (simp add: emit_def delay_def)
    have x: "extends s ?t"
      unfolding e delay_def using 1(2) by (intro extends_intros) (simp_all add: extends_upd)
    show ?thesis
    proof (cases "v > 14 \<and> v < 20")
      case True
      then show ?thesis using Cons x by (subst closeDoor_loop_unfold) simp
    next
      case False
      have u: "ultrasonic_distanceRead t = Some (v, emit (DistanceRead v) (t\<lparr>distance := vs\<rparr>))"
        using Cons by (simp add: ultrasonic_distanceRead_def)
      have "extends s (snd (closeDoor_loop ?t))"
        using "1.IH" [OF u refl refl refl refl] False x unfolding e by simp
      moreover have "closeDoor_loop t = closeDoor_loop ?t"
        using Cons False by (subst closeDoor_loop_unfold) auto
      ultimately show ?thesis by simp
    qed
  qed
qed

lemma extends_closeDoor: "extends s t \<Longrightarrow> extends s (snd (closeDoor t))"
proof -
  assume a: "extends s t"
  have "extends s (delay 2000 t)" unfolding delay_def using a by (intro extends_intros) simp_all
  then have b: "extends s (snd (closeDoor_loop (delay 2000 t)))" by (rule extends_closeDoor_loop)
  show ?thesis
  proof (cases "closeDoor_loop (delay 2000 t)")
    case (Pair st u)
    then show ?thesis using b
      by (cases st) (simp_all add: closeDoor_def andThen_simps extends_close_drive)
  qed
qed


lemma extends_cong: "trace u = trace t \<Longrightarrow> extends s u = extends s t"
  by (simp add: extends_def)

lemma extends_andThen:
  "extends s (snd r) \<Longrightarrow> (\<And>u. extends s u \<Longrightarrow> extends s (snd (f u))) \<Longrightarrow>
   extends s (snd (andThen r f))"
  by (cases r; cases "fst r") (auto simp: andThen_def)

lemma extends_checkClose: "extends s t \<Longrightarrow> extends s (snd (checkClose t))"
proof (cases "distance t")
  case Nil
  assume "extends s t"
  then show ?thesis using Nil by (simp add: checkClose_def ultrasonic_distanceRead_def)
next
  case (Cons v vs)
  assume "extends s t"
  then have x: "extends s (emit (DistanceRead v) (t\<lparr>distance := vs\<rparr>))"
    by (intro extends_intros) (simp_all add: extends_upd)
  show ?thesis
    using Cons x extends_closeDoor [OF x]
    by (simp add: checkClose_def ultrasonic_distanceRead_def)
qed

lemma extends_checkSmoke_loop: "extends s t \<Longrightarrow> extends s (snd (checkSmoke_loop n t))"
proof (induction n arbitrary: t)
  case 0
  then show ?case by simp
next
  case (Suc n)
  show ?case
  proof (cases "gas t")
    case Nil
    then show ?thesis using Suc.prems by (simp add: analogRead_smokePin_def)
  next
    case (Cons j js)
    have x: "extends s (emit (AnalogRead j) (t\<lparr>gas := js\<rparr>))"
      using Suc.prems by (intro extends_intros) (simp_all add: extends_upd)
    have y: "extends s (funopenDoor (emit (Println ''Alarm triggered!! Press reset to reset door.'')
               (emit (AnalogRead j) (t\<lparr>gas := js\<rparr>))))"
      by (rule extends_funopenDoor, rule extends_emit, simp, rule x)
    show ?thesis
      using Cons y Suc.IH [OF x]
      by (simp add: analogRead_smokePin_def Serial_println_def)
  qed
qed

lemma extends_getID: "getID t = Some (r, u) \<Longrightarrow> extends s t \<Longrightarrow> extends s u"
proof (cases "reader t")
  case Nil
  assume "getID t = Some (r, u)"
  then show ?thesis using Nil by (simp add: getID_def)
next
  case (Cons c cs)
  assume g: "getID t = Some (r, u)" and e: "extends s t"
  show ?thesis
  proof (cases c)
    case None
    then have "u = emit (GetID None) (t\<lparr>reader := cs\<rparr>)"
      using g Cons by (simp add: getID_def)
    then show ?thesis using e by (simp add: extends_intros extends_upd)
  next
    case (Some uid)
    then have "u = emit (Println [])
        (emit (PrintHex (byte_at uid 3)) ((emit (PrintHex (byte_at uid 2))
          ((emit (PrintHex (byte_at uid 1)) ((emit (PrintHex (byte_at uid 0))
            ((emit (Println ''Scanned PICC's UID:'') (emit (GetID (Some uid)) (t\<lparr>reader := cs\<rparr>)))
              \<lparr>readCard := set_byte (readCard t) 0 (byte_at uid 0)\<rparr>))
            \<lparr>readCard := set_byte (set_byte (readCard t) 0 (byte_at uid 0)) 1 (byte_at uid 1)\<rparr>))
          \<lparr>readCard := set_byte (set_byte (set_byte (readCard t) 0 (byte_at uid 0)) 1 (byte_at uid 1))
                           2 (byte_at uid 2)\<rparr>))
        \<lparr>readCard := set_byte (set_byte (set_byte (set_byte (readCard t) 0 (byte_at uid 0)) 1
                           (byte_at uid 1)) 2 (byte_at uid 2)) 3 (byte_at uid 3)\<rparr>))"
      using g Cons by (simp add: getID_def Let_def Serial_println_def emit_def)
    then show ?thesis using e by (simp add: extends_intros extends_upd)
  qed
qed


lemma extends_read_wipeB:
  "digitalRead_wipeB t = Some (w, u) \<Longrightarrow> extends s t \<Longrightarrow> extends s u"
  by (auto simp: digitalRead_wipeB_def extends_upd split: list.splits intro!: extends_emit)

lemma extends_read_userOpen:
  "digitalRead_userOpen t = Some (w, u) \<Longrightarrow> extends s t \<Longrightarrow> extends s u"
  by (auto simp: digitalRead_userOpen_def extends_upd split: list.splits intro!: extends_emit)

lemma extends_wipe: "extends s t \<Longrightarrow>
  extends s (snd (case digitalRead_wipeB t of
        None \<Rightarrow> (Starved, t)
      | Some (w, s4) \<Rightarrow>
          if w = LOW then
            (let s5 = delay 10000
                        (Serial_println ''Master Card will be Erased! in 10 seconds''
                          (Serial_println ''Wipe Button Pressed'' s4))
             in case digitalRead_wipeB s5 of
                  None \<Rightarrow> (Starved, s5)
                | Some (w2, s6) \<Rightarrow>
                    if w2 = LOW then
                      (Halted,
                       Serial_println ''Restart device to re-program Master Card''
                         (EEPROM_write 1 0 s6))
                    else (Returned, s6))
          else (Returned, s4)))"
proof (cases "digitalRead_wipeB t")
  case None
  assume "extends s t"
  then show ?thesis using None by simp
next
  case (Some p)
  assume e: "extends s t"
  obtain w s4 where p: "p = (w, s4)" by (cases p)
  have x4: "extends s s4" using extends_read_wipeB [OF Some [unfolded p] e] .
  let ?s5 = "delay 10000 (Serial_println ''Master Card will be Erased! in 10 seconds''
               (Serial_println ''Wipe Button Pressed'' s4))"
  have x5: "extends s ?s5"
    unfolding delay_def Serial_println_def by (intro extends_emit x4) simp_all
  show ?thesis
  proof (cases "digitalRead_wipeB ?s5")
    case None
    then show ?thesis using Some p x4 x5 by (simp add: Let_def)
  next
    case (Some q)
    obtain w2 s6 where q: "q = (w2, s6)" by (cases q)
    have x6: "extends s s6" using extends_read_wipeB [OF Some [unfolded q] x5] .
    have x7: "extends s (Serial_println ''Restart device to re-program Master Card''
                  (EEPROM_write 1 0 s6))"
      unfolding Serial_println_def
      by (intro extends_emit) (simp_all add: EEPROM_write_def extends_upd x6)
    show ?thesis
      using \<open>digitalRead_wipeB t = Some p\<close> p Some q x4 x6 x7 by (simp add: Let_def)
  qed
qed

lemma extends_userOpen:
  assumes e: "extends s t" and f: "\<And>u. extends s u \<Longrightarrow> extends s (snd (f u))"
  shows "extends s (snd (case digitalRead_userOpen t of
                None \<Rightarrow> (Starved, t)
              | Some (u, s2) \<Rightarrow>
                  andThen
                    (if u = LOW then
                       andThen
                         (Returned,
                          delay 10000
                            (funopenDoor (Serial_println ''Button press open triggered.'' s2)))
                         closeDoor
                     else (Returned, s2)) f))"
proof (cases "digitalRead_userOpen t")
  case None
  then show ?thesis using e by simp
next
  case (Some p)
  obtain b s2 where p: "p = (b, s2)" by (cases p)
  have x2: "extends s s2" using extends_read_userOpen [OF Some [unfolded p] e] .
  have x3: "extends s (delay 10000
              (funopenDoor (Serial_println ''Button press open triggered.'' s2)))"
    unfolding delay_def Serial_println_def
    by (rule extends_emit, simp, rule extends_funopenDoor, rule extends_emit, simp, rule x2)
  have "extends s (snd (andThen
                    (if b = LOW then
                       andThen
                         (Returned,
                          delay 10000
                            (funopenDoor (Serial_println ''Button press open triggered.'' s2)))
                         closeDoor
                     else (Returned, s2)) f))"
  proof (rule extends_andThen [OF _ f])
    show "extends s (snd (if b = LOW then
                       andThen
                         (Returned,
                          delay 10000
                            (funopenDoor (Serial_println ''Button press open triggered.'' s2)))
                         closeDoor
                     else (Returned, s2)))"
      using x2 extends_closeDoor [OF x3] by (simp add: andThen_simps)
  qed
  then show ?thesis using Some p by simp
qed

lemma extends_poll_body: "extends s t \<Longrightarrow> extends s (snd (poll_body t))"
proof (cases "getID t")
  case None
  assume "extends s t"
  then show ?thesis using None by (simp add: poll_body_def)
next
  case (Some p)
  assume e: "extends s t"
  obtain r t0 where p: "p = (r, t0)" by (cases p)
  have x0: "extends s (t0\<lparr>successRead := r\<rparr>)"
    using extends_getID [OF Some [unfolded p] e] by (simp add: extends_upd)
  have "extends s (snd (andThen (checkSmoke (t0\<lparr>successRead := r\<rparr>))
            (\<lambda>s1. case digitalRead_userOpen s1 of
                None \<Rightarrow> (Starved, s1)
              | Some (u, s2) \<Rightarrow>
                  andThen
                    (if u = LOW then
                       andThen
                         (Returned,
                          delay 10000
                            (funopenDoor (Serial_println ''Button press open triggered.'' s2)))
                         closeDoor
                     else (Returned, s2))
                    (\<lambda>s3. case digitalRead_wipeB s3 of
                        None \<Rightarrow> (Starved, s3)
                      | Some (w, s4) \<Rightarrow>
                          if w = LOW then
                            (let s5 = delay 10000
                                        (Serial_println ''Master Card will be Erased! in 10 seconds''
                                          (Serial_println ''Wipe Button Pressed'' s4))
                             in case digitalRead_wipeB s5 of
                                  None \<Rightarrow> (Starved, s5)
                                | Some (w2, s6) \<Rightarrow>
                                    if w2 = LOW then
                                      (Halted,
                                       Serial_println ''Restart device to re-program Master Card''
                                         (EEPROM_write 1 0 s6))
                                    else (Returned, s6))
                          else (Returned, s4)))))"
  proof (rule extends_andThen)
    show "extends s (snd (checkSmoke (t0\<lparr>successRead := r\<rparr>)))"
      unfolding checkSmoke_def by (rule extends_checkSmoke_loop [OF x0])
  next
    fix u assume "extends s u"
    then show "extends s (snd (case digitalRead_userOpen u of
                None \<Rightarrow> (Starved, u)
              | Some (ua, s2) \<Rightarrow>
                  andThen
                    (if ua = LOW then
                       andThen
                         (Returned,
                          delay 10000
                            (funopenDoor (Serial_println ''Button press open triggered.'' s2)))
                         closeDoor
                     else (Returned, s2))
                    (\<lambda>s3. case digitalRead_wipeB s3 of
                        None \<Rightarrow> (Starved, s3)
                      | Some (w, s4) \<Rightarrow>
                          if w = LOW then
                            (let s5 = delay 10000
                                        (Serial_println ''Master Card will be Erased! in 10 seconds''
                                          (Serial_println ''Wipe Button Pressed'' s4))
                             in case digitalRead_wipeB s5 of
                                  None \<Rightarrow> (Starved, s5)
                                | Some (w2, s6) \<Rightarrow>
                                    if w2 = LOW then
                                      (Halted,
                                       Serial_println ''Restart device to re-program Master Card''
                                         (EEPROM_write 1 0 s6))
                                    else (Returned, s6))
                          else (Returned, s4))))"
      by (rule extends_userOpen) (erule extends_wipe)
  qed
  then show ?thesis using Some p by (simp add: poll_body_def)
qed

lemma extends_poll: "extends s t \<Longrightarrow> extends s (snd (poll t))"
proof (induction t rule: poll.induct)
  case (1 t)
  obtain st u where pb: "poll_body t = (st, u)" by (cases "poll_body t")
  have x: "extends s u" using extends_poll_body [OF "1.prems"] pb by simp
  show ?case
  proof (cases "st = Returned \<and> successRead u = 0")
    case True
    then have "poll t = poll u" using pb by (subst poll.simps) simp
    moreover have "extends s (snd (poll u))"
      using "1.IH" [OF pb [symmetric]] True x by simp
    ultimately show ?thesis by simp
  next
    case False
    then have "poll t = (st, u)" using pb by (subst poll.simps) (auto split: status.splits)
    then show ?thesis using x by simp
  qed
qed


lemma findIDSLOT_loop_frame:
  assumes "findIDSLOT_loop a count i s = Some y"
  shows "\<exists>c m. snd y = s\<lparr>storedCard := c, match := m\<rparr>"
proof (rule findIDSLOT_loop.raw_induct
    [where P = "\<lambda>a count i s y. \<exists>c m. snd y = s\<lparr>storedCard := c, match := m\<rparr>", OF _ assms])
  fix f a count i s y
  assume ih: "\<And>a count i s y. f a count i s = Some y \<Longrightarrow>
                \<exists>c m. snd y = s\<lparr>storedCard := c, match := m\<rparr>"
    and eq: "(if i \<le> count then
        (if fst (checkTwo a (storedCard (readID i s)) (readID i s))
         then Some (i, snd (checkTwo a (storedCard (readID i s)) (readID i s)))
         else f a count (i + 1)
                (snd (checkTwo a (storedCard (readID i s)) (readID i s))))
      else None) = Some y"
  have ic: "i \<le> count" using eq by (auto split: if_splits)
  let ?hit = "(byte_at a 0 \<noteq> 0 \<or> match s) \<and> a = slot_at s i"
  show "\<exists>c m. snd y = s\<lparr>storedCard := c, match := m\<rparr>"
  proof (cases ?hit)
    case True
    then have "snd y = s\<lparr>storedCard := slot_at s i, match := True\<rparr>"
      using eq ic by (auto simp: readID_slot checkTwo_eq)
    then show ?thesis by blast
  next
    case False
    then have "f a count (i + 1) (s\<lparr>storedCard := slot_at s i, match := False\<rparr>) = Some y"
      using eq ic by (auto simp: readID_slot checkTwo_eq)
    from ih [OF this] obtain c m where
      "snd y = s\<lparr>storedCard := slot_at s i, match := False\<rparr>\<lparr>storedCard := c, match := m\<rparr>"
      by blast
    then have "snd y = s\<lparr>storedCard := c, match := m\<rparr>" by simp
    then show ?thesis by blast
  qed
qed

lemma findID_trace: "findID a s = Some (r, t) \<Longrightarrow> trace t = trace s"
  using findID_frame [of a s r t] by auto

lemma findIDSLOT_trace: "findIDSLOT a s = Some (n, t) \<Longrightarrow> trace t = trace s"
  using findIDSLOT_loop_frame [of a "eeprom s 0" 1 s "(n, t)"] by (auto simp: findIDSLOT_def)

lemma writeID_trace: "writeID a s = Some t \<Longrightarrow> \<exists>m. trace t = trace s @ [Println m]"
proof -
  assume w: "writeID a s = Some t"
  obtain r s1 where f: "findID a s = Some (r, s1)"
    using w by (auto simp: writeID_def split: option.splits)
  have t1: "trace s1 = trace s" using findID_trace [OF f] .
  show ?thesis
    using w f t1
    by (cases r) (auto simp: writeID_def Let_def EEPROM_write_def Serial_println_def emit_def)
qed

lemma deleteID_trace: "deleteID a s = Some t \<Longrightarrow> \<exists>m. trace t = trace s @ [Println m]"
proof -
  assume d: "deleteID a s = Some t"
  obtain r s1 where f: "findID a s = Some (r, s1)"
    using d by (auto simp: deleteID_def split: option.splits)
  have t1: "trace s1 = trace s" using findID_trace [OF f] .
  show ?thesis
  proof (cases r)
    case False
    then show ?thesis using d f t1 by (auto simp: deleteID_def Serial_println_def emit_def)
  next
    case True
    then obtain n s2 where g: "findIDSLOT a s1 = Some (n, s2)"
      using d f by (auto simp: deleteID_def Let_def split: option.splits)
    have t2: "trace s2 = trace s" using findIDSLOT_trace [OF g] t1 by simp
    have z: "trace (fold (\<lambda>k s. EEPROM_write (x + k) 0 s) [0, 1, 2, 3] u) = trace u" for x u
      by (simp add: EEPROM_write_def)
    show ?thesis
      using d f g True t2
      by (auto simp: deleteID_def Let_def Serial_println_def emit_def z
            trace_fold_EEPROM_write trace_EEPROM_write)
  qed
qed

lemma extends_println: "trace t = trace s @ [Println m] \<Longrightarrow> extends s t"
  by (simp add: extends_def idle_neutral)

lemma extends_writeID: "writeID a t = Some u \<Longrightarrow> extends s t \<Longrightarrow> extends s u"
  using writeID_trace [of a t u] by (auto intro: extends_trans extends_println)

lemma extends_deleteID: "deleteID a t = Some u \<Longrightarrow> extends s t \<Longrightarrow> extends s u"
  using deleteID_trace [of a t u] by (auto intro: extends_trans extends_println)


lemma isMaster_eq:
  "isMaster c s =
     ((byte_at c 0 \<noteq> 0 \<or> match s) \<and> c = masterCard s,
      s\<lparr>match := (byte_at c 0 \<noteq> 0 \<or> match s) \<and> c = masterCard s\<rparr>)"
  by (simp add: isMaster_def checkTwo_eq)

lemma extends_dispatch: "extends s t \<Longrightarrow> extends s (snd (dispatch t))"
proof -
  assume e: "extends s t"
  define b where "b \<longleftrightarrow> (byte_at (readCard t) 0 \<noteq> 0 \<or> match t) \<and> readCard t = masterCard t"
  define t1 where "t1 = t\<lparr>match := b\<rparr>"
  have im: "isMaster (readCard t) t = (b, t1)"
    unfolding b_def t1_def by (rule isMaster_eq)
  have x1: "extends s t1" using e by (simp add: t1_def extends_upd)
  have rc: "readCard t1 = readCard t" by (simp add: t1_def)
  have pr: "extends s (Serial_println m u)" if "extends s u" for m u
    unfolding Serial_println_def using that by (intro extends_emit) simp_all
  have pp: "extends s (Serial_print m u)" if "extends s u" for m u
    unfolding Serial_print_def using that by (intro extends_emit) simp_all
  have pd: "extends s (emit (PrintDec n) u)" if "extends s u" for n u
    using that by (intro extends_emit) simp_all
  show ?thesis
  proof (cases b)
    case True
    then show ?thesis
      unfolding dispatch_def im using x1 by (simp add: Let_def pr pp pd extends_upd)
  next
    case False
    show ?thesis
    proof (cases "findID (readCard t) t1")
      case None
      then show ?thesis unfolding dispatch_def im using False x1 by (simp add: rc)
    next
      case (Some p)
      obtain r t2 where p: "p = (r, t2)" by (cases p)
      have f: "findID (readCard t) t1 = Some (r, t2)" using Some p by simp
      have x2: "extends s t2"
        using findID_trace [OF f] x1 by (simp add: extends_cong [of t2 t1])
      show ?thesis
      proof (cases "programMode t")
        case True
        show ?thesis
        proof (cases r)
          case True
          define s3 where "s3 = Serial_println ''I know this PICC, removing...'' t2"
          have x3: "extends s s3" unfolding s3_def by (rule pr [OF x2])
          show ?thesis
          proof (cases "deleteID (readCard s3) s3")
            case None
            then show ?thesis
              unfolding dispatch_def im
              using \<open>programMode t\<close> False f True x3 by (simp add: Let_def rc s3_def)
          next
            case (Some s4)
            have "extends s s4" by (rule extends_deleteID [OF Some x3])
            then show ?thesis
              unfolding dispatch_def im
              using \<open>programMode t\<close> False f True Some
              by (simp add: Let_def pr rc s3_def)
          qed
        next
          case False
          define s3 where "s3 = Serial_println ''I do not know this PICC, adding...'' t2"
          have x3: "extends s s3" unfolding s3_def by (rule pr [OF x2])
          show ?thesis
          proof (cases "writeID (readCard s3) s3")
            case None
            then show ?thesis
              unfolding dispatch_def im
              using \<open>programMode t\<close> \<open>\<not> b\<close> f False x3 by (simp add: Let_def rc s3_def)
          next
            case (Some s4)
            have "extends s s4" by (rule extends_writeID [OF Some x3])
            then show ?thesis
              unfolding dispatch_def im
              using \<open>programMode t\<close> \<open>\<not> b\<close> f False Some
              by (simp add: Let_def pr rc s3_def)
          qed
        qed
      next
        case False
        show ?thesis
        proof (cases r)
          case True
          have "extends s (delay 10000 (digitalWrite rc LOW (funopenDoor
                  (digitalWrite rc HIGH (Serial_println ''Welcome, You shall pass'' t2)))))"
            unfolding delay_def digitalWrite_def
            by (rule extends_emit, simp, rule extends_emit, simp, rule extends_funopenDoor,
                rule extends_emit, simp, rule pr, rule x2)
          then have "extends s (snd (closeDoor (delay 10000 (digitalWrite rc LOW (funopenDoor
                  (digitalWrite rc HIGH (Serial_println ''Welcome, You shall pass'' t2)))))))"
            by (rule extends_closeDoor)
          then show ?thesis
            unfolding dispatch_def im
            using \<open>\<not> programMode t\<close> \<open>\<not> b\<close> f True by (simp add: Let_def rc)
        next
          case False
          then show ?thesis
            unfolding dispatch_def im
            using \<open>\<not> programMode t\<close> \<open>\<not> b\<close> f x2 by (simp add: pr rc)
        qed
      qed
    qed
  qed
qed

lemma idle_clear: "idle [DigitalWrite motHigh LOW, DigitalWrite motLow LOW, DigitalWrite rc LOW]"
  by (simp add: idle_def)

lemma extends_loop: "extends s (snd (loop s))"
proof -
  let ?s3 = "digitalWrite rc LOW (digitalWrite motLow LOW (digitalWrite motHigh LOW s))"
  have x3: "extends s ?s3"
    using idle_clear by (simp add: extends_def digitalWrite_def emit_def)
  have "extends s (snd (andThen (checkClose ?s3) (\<lambda>s4. andThen (poll s4) dispatch)))"
  proof (rule extends_andThen [OF extends_checkClose [OF x3]])
    fix u assume "extends s u"
    then show "extends s (snd (andThen (poll u) dispatch))"
      by (intro extends_andThen extends_poll extends_dispatch)
  qed
  then show ?thesis by (simp add: loop_def)
qed

lemma extends_run: "extends s (snd (run n s))"
proof (induction n arbitrary: s)
  case 0
  show ?case by (simp add: extends_refl)
next
  case (Suc n)
  obtain st u where l: "loop s = (st, u)" by (cases "loop s")
  have x: "extends s u" using extends_loop [of s] l by simp
  show ?case
  proof (cases st)
    case Returned
    then show ?thesis
      using l x Suc.IH [of u] by (auto simp: andThen_simps intro: extends_trans)
  qed (use l x in \<open>simp_all add: andThen_simps\<close>)
qed


lemma interlocked_final: "interlocked hl xs \<Longrightarrow> foldl drive hl xs \<noteq> (HIGH, HIGH)"
  by (induction xs arbitrary: hl) auto

lemma settle:
  assumes "hl \<noteq> (HIGH, HIGH)" "idle rest"
  shows "interlocked hl
           ([DigitalWrite motHigh LOW, DigitalWrite motLow LOW, DigitalWrite rc LOW] @ rest) \<and>
         foldl drive hl
           ([DigitalWrite motHigh LOW, DigitalWrite motLow LOW, DigitalWrite rc LOW] @ rest) =
           (LOW, LOW)"
  using assms by (cases hl) (auto simp: idle_def)

lemma loop_trace:
  "\<exists>rest. trace (snd (loop s)) =
          trace s @ [DigitalWrite motHigh LOW, DigitalWrite motLow LOW, DigitalWrite rc LOW] @ rest \<and>
        idle rest"
proof -
  let ?s3 = "digitalWrite rc LOW (digitalWrite motLow LOW (digitalWrite motHigh LOW s))"
  have "extends ?s3 (snd (andThen (checkClose ?s3) (\<lambda>s4. andThen (poll s4) dispatch)))"
  proof (rule extends_andThen [OF extends_checkClose [OF extends_refl]])
    fix u assume "extends ?s3 u"
    then show "extends ?s3 (snd (andThen (poll u) dispatch))"
      by (intro extends_andThen extends_poll extends_dispatch)
  qed
  then show ?thesis
    by (simp add: loop_def extends_def digitalWrite_def emit_def)
qed

lemma loop_idle: "interlocked (LOW, LOW) (trace s) \<Longrightarrow> idle (trace (snd (loop s)))"
proof -
  assume i: "interlocked (LOW, LOW) (trace s)"
  obtain rest where rest: "trace (snd (loop s)) =
      trace s @ [DigitalWrite motHigh LOW, DigitalWrite motLow LOW, DigitalWrite rc LOW] @ rest"
    "idle rest"
    using loop_trace by blast
  let ?hl = "foldl drive (LOW, LOW) (trace s)"
  let ?ys = "[DigitalWrite motHigh LOW, DigitalWrite motLow LOW, DigitalWrite rc LOW] @ rest"
  have a: "interlocked (LOW, LOW) (trace s @ ?ys) \<longleftrightarrow>
             interlocked (LOW, LOW) (trace s) \<and> interlocked ?hl ?ys"
    by (rule interlocked_append)
  have b: "foldl drive (LOW, LOW) (trace s @ ?ys) = foldl drive ?hl ?ys"
    by (rule foldl_append)
  show ?thesis
    unfolding idle_def rest(1) a b
    using i settle [OF interlocked_final [OF i] rest(2)] by blast
qed

lemma run_interlocked:
  "interlocked (LOW, LOW) (trace s) \<Longrightarrow> interlocked (LOW, LOW) (trace (snd (run n s)))"
proof (induction n arbitrary: s)
  case 0
  then show ?case by simp
next
  case (Suc n)
  obtain st u where l: "loop s = (st, u)" by (cases "loop s")
  have u: "interlocked (LOW, LOW) (trace u)"
    using loop_idle [OF Suc.prems] l by (simp add: idle_def)
  show ?case
    using l u Suc.IH [OF u] by (cases st) (simp_all add: andThen_simps)
qed

text \<open>
  C8. Along every run of the control loop the open and the close output are never high
  together: if the log so far keeps the interlock, so does the log after any number of calls
  of \<^verbatim>\<open>loop()\<close>, however each call ends. And every call of \<^verbatim>\<open>loop()\<close> starts by writing
  low to \<^verbatim>\<open>motHigh\<close>, \<^verbatim>\<open>motLow\<close> and \<^verbatim>\<open>rc\<close>, before anything else.
\<close>

theorem motor_outputs_interlocked:
  assumes "interlocked (LOW, LOW) (trace s)"
  shows "interlocked (LOW, LOW) (trace (snd (run n s))) \<and>
         (\<exists>rest. trace (snd (loop s)) =
            trace s @ [DigitalWrite motHigh LOW, DigitalWrite motLow LOW, DigitalWrite rc LOW] @ rest)"
  using run_interlocked [OF assms] loop_trace [of s] by blast

theorem motor_outputs_interlocked_witness:
  "interlocked (LOW, LOW) (trace zero_master) \<and>
   interlocked (LOW, LOW) (trace (snd (run 2 zero_master))) \<and>
   DigitalWrite motHigh HIGH \<in> set (trace (snd (run 2 zero_master))) \<and>
   DigitalWrite motLow HIGH \<in> set (trace (snd (run 2 zero_master)))"
proof -
  have i: "interlocked (LOW, LOW) (trace zero_master)"
    by (simp add: zero_master_def power_on_def)
  have "DigitalWrite motHigh HIGH \<in> set (trace (snd (run 2 zero_master))) \<and>
        DigitalWrite motLow HIGH \<in> set (trace (snd (run 2 zero_master)))"
    by (simp add: run_2 zero_master_def power_on_def evals)
  then show ?thesis
    using i motor_outputs_interlocked [OF i, of 2] by simp
qed


subsection \<open>The clearance check at the start of the cycle\<close>

lemma closeDoor_blocked:
  assumes "\<forall>v \<in> set (distance s). \<not> (v > 14 \<and> v < 20)"
  shows "closeDoor s =
     (Starved, s\<lparr>distance := [],
                  trace := trace s @ [Delay 2000] @ concat (map sample (distance s))\<rparr>)"
proof -
  have "closeDoor_loop (delay 2000 s) =
      (Starved, (delay 2000 s)\<lparr>distance := [],
          trace := trace (delay 2000 s) @ concat (map sample (distance (delay 2000 s)))\<rparr>)"
    using assms by (intro closeDoor_loop_unsafe) (simp add: delay_def emit_def)
  then show ?thesis
    by (simp add: closeDoor_def andThen_def delay_def emit_def)
qed

lemma closeDoor_closes:
  assumes "distance s = pre @ v # post" "\<forall>u \<in> set pre. \<not> (u > 14 \<and> u < 20)" "v > 14 \<and> v < 20"
  shows "closeDoor s =
     (Returned, s\<lparr>distance := post,
        trace := trace s @ [Delay 2000] @ concat (map sample (pre @ [v])) @
                 [DigitalWrite motLow HIGH, Delay 10200, DigitalWrite motLow LOW]\<rparr>)"
proof -
  have "closeDoor_loop (delay 2000 s) =
      (Returned, (delay 2000 s)\<lparr>distance := post,
          trace := trace (delay 2000 s) @ concat (map sample (pre @ [v]))\<rparr>)"
    using assms by (intro closeDoor_loop_clear) (simp_all add: delay_def emit_def)
  then show ?thesis
    by (simp add: closeDoor_def andThen_def delay_def emit_def digitalWrite_def)
qed

text \<open>
  C10. \<^verbatim>\<open>loop()\<close> clears the three outputs and takes one distance reading \<open>d\<close> before the
  first poll. If \<open>d\<close> is not strictly between 14 and 20 the polling starts at once, with no
  actuation. If it is, a whole \<^verbatim>\<open>closeDoor\<close> runs first: while every later reading is
  outside the band the cycle stays in the clearance wait and never polls; after the first
  reading inside the band the close output is driven for 10200 ms, and only then the
  polling starts.
\<close>

theorem loop_checks_clearance_first:
  assumes d: "distance s = d # ds"
    and s4: "s4 = s\<lparr>distance := ds,
                     trace := trace s @ [DigitalWrite motHigh LOW, DigitalWrite motLow LOW,
                                         DigitalWrite rc LOW, DistanceRead d]\<rparr>"
  shows "(\<not> (d > 14 \<and> d < 20) \<longrightarrow> loop s = andThen (poll s4) dispatch) \<and>
     (d > 14 \<and> d < 20 \<and> (\<forall>v \<in> set ds. \<not> (v > 14 \<and> v < 20)) \<longrightarrow>
        loop s = (Starved, s4\<lparr>distance := [],
                      trace := trace s4 @ [Delay 2000] @ concat (map sample ds)\<rparr>)) \<and>
     (\<forall>pre v post.
        d > 14 \<and> d < 20 \<and> ds = pre @ v # post \<and> (\<forall>u \<in> set pre. \<not> (u > 14 \<and> u < 20)) \<and>
        v > 14 \<and> v < 20 \<longrightarrow>
        loop s =
          andThen
            (poll (s4\<lparr>distance := post,
                trace := trace s4 @ [Delay 2000] @ concat (map sample (pre @ [v])) @
                         [DigitalWrite motLow HIGH, Delay 10200, DigitalWrite motLow LOW]\<rparr>))
            dispatch)"
proof -
  let ?s3 = "digitalWrite rc LOW (digitalWrite motLow LOW (digitalWrite motHigh LOW s))"
  have cc: "checkClose ?s3 = (if d > 14 \<and> d < 20 then closeDoor s4 else (Returned, s4))"
    using d by (simp add: checkClose_def ultrasonic_distanceRead_def digitalWrite_def emit_def s4)
  have l: "loop s = andThen (checkClose ?s3) (\<lambda>t. andThen (poll t) dispatch)"
    by (simp add: loop_def)
  have ds: "distance s4 = ds" by (simp add: s4)
  have 1: "loop s = andThen (poll s4) dispatch" if "\<not> (d > 14 \<and> d < 20)"
    using that by (auto simp: l cc andThen_simps)
  have 2: "loop s = (Starved, s4\<lparr>distance := [],
                      trace := trace s4 @ [Delay 2000] @ concat (map sample ds)\<rparr>)"
    if "d > 14 \<and> d < 20" "\<forall>v \<in> set ds. \<not> (v > 14 \<and> v < 20)"
    using that closeDoor_blocked [of s4] by (simp add: l cc ds andThen_simps)
  have 3: "loop s = andThen
            (poll (s4\<lparr>distance := post,
                trace := trace s4 @ [Delay 2000] @ concat (map sample (pre @ [v])) @
                         [DigitalWrite motLow HIGH, Delay 10200, DigitalWrite motLow LOW]\<rparr>))
            dispatch"
    if "d > 14 \<and> d < 20" "ds = pre @ v # post" "\<forall>u \<in> set pre. \<not> (u > 14 \<and> u < 20)"
      "v > 14 \<and> v < 20"
    for pre v post
    using that closeDoor_closes [of s4 pre v post] by (simp add: l cc ds andThen_simps)
  show ?thesis using 1 2 3 by blast
qed

theorem loop_checks_clearance_first_witness:
  "distance close_scan = [15, 30, 16] \<and>
   fst (loop close_scan) = Returned \<and>
   programMode (snd (loop close_scan)) \<and>
   take 15 (trace (snd (loop close_scan))) =
     [DigitalWrite motHigh LOW, DigitalWrite motLow LOW, DigitalWrite rc LOW, DistanceRead 15,
      Delay 2000, DistanceRead 30, PrintlnDec 30, Delay 500,
      DistanceRead 16, PrintlnDec 16, Delay 500,
      DigitalWrite motLow HIGH, Delay 10200, DigitalWrite motLow LOW,
      GetID (Some (Card 2 3 4 5))]"
proof -
  let ?s4 = "close_scan\<lparr>distance := [30, 16],
                     trace := trace close_scan @ [DigitalWrite motHigh LOW, DigitalWrite motLow LOW,
                                         DigitalWrite rc LOW, DistanceRead 15]\<rparr>"
  have d: "distance close_scan = 15 # [30, 16]"
    by (simp add: close_scan_def)
  have l: "loop close_scan =
          andThen
            (poll (?s4\<lparr>distance := [],
                trace := trace ?s4 @ [Delay 2000] @ concat (map sample ([30] @ [16])) @
                         [DigitalWrite motLow HIGH, Delay 10200, DigitalWrite motLow LOW]\<rparr>))
            dispatch"
    using loop_checks_clearance_first [OF d refl, THEN conjunct2, THEN conjunct2, rule_format,
        of "[30]" 16 "[]"]
    by simp
  show ?thesis
    unfolding l
    by (simp add: close_scan_def master_scan_def store_with_count_def power_on_def sample_def
          prims poll_unfold poll_body_def checkSmoke_unfold dispatch_def isMaster_def checkTwo_eq
          Let_def)
qed

end
